theory Spec2Isabelle
  imports Main "HOL-Library.Char_ord" "HOL-Library.List_Lexorder"
begin

section \<open>The balanced consumer of pykafka (kafka/pykafka/balancedconsumer.py)\<close>

text \<open>
  The class \<^verbatim>\<open>BalancedConsumer\<close> keeps one inner \<^verbatim>\<open>SimpleConsumer\<close> and
  reassigns partitions to it with the consumer rebalancing algorithm, using ZooKeeper
  as the registry of group members and of partition owners. The module is Python 2
  (\<^verbatim>\<open>xrange\<close>), so \<^verbatim>\<open>/\<close> on two integers is floor division.

  Exceptions are values of \<open>error\<close>; a method that may raise returns the error
  together with the object's state at the moment of the raise.
\<close>

subsection \<open>Errors, partitions and their canonical string\<close>

datatype error =
    NoNodeException
  | NodeExistsError
  | ValueError
  | ZeroDivisionError
  | AssertionError

text \<open>
  A partition as the module reads it: \<^verbatim>\<open>p.topic.name\<close>, \<^verbatim>\<open>p.leader.id\<close> and
  \<^verbatim>\<open>p.id\<close>.
\<close>

record partition =
  p_topic_name :: string
  p_leader_id :: int
  p_id :: int

text \<open>Python's \<^verbatim>\<open>str\<close> on an integer: decimal digits, with a minus sign below zero.\<close>

definition digit_char :: "nat \<Rightarrow> char" where
  "digit_char d = ''0123456789'' ! d"

fun str_nat :: "nat \<Rightarrow> string" where
  "str_nat n =
     (if n < 10 then [digit_char n] else str_nat (n div 10) @ [digit_char (n mod 10)])"

declare str_nat.simps [simp del]

definition str :: "int \<Rightarrow> string" where
  "str i = (if i < 0 then CHR ''-'' # str_nat (nat (- i)) else str_nat (nat i))"

text \<open>Python's \<^verbatim>\<open>sep.join(xs)\<close>.\<close>

fun join :: "string \<Rightarrow> string list \<Rightarrow> string" where
  "join sep [] = []"
| "join sep [x] = x"
| "join sep (x # y # ys) = x @ sep @ join sep (y # ys)"

text \<open>
  \<^verbatim>\<open>p_to_str = lambda p: '-'.join([p.topic.name, str(p.leader.id), str(p.id)])\<close>
\<close>

definition p_to_str :: "partition \<Rightarrow> string" where
  "p_to_str p = join ''-'' [p_topic_name p, str (p_leader_id p), str (p_id p)]"

subsection \<open>Python lists and sets\<close>

text \<open>
  \<^verbatim>\<open>xs.index(x)\<close>: the position of the first occurrence, \<open>None\<close> where Python
  raises \<^verbatim>\<open>ValueError\<close>.
\<close>

fun index :: "'a list \<Rightarrow> 'a \<Rightarrow> nat option" where
  "index [] x = None"
| "index (y # ys) x =
     (if y = x then Some 0 else (case index ys x of None \<Rightarrow> None | Some i \<Rightarrow> Some (Suc i)))"

text \<open>\<^verbatim>\<open>itertools.islice(xs, start, stop)\<close> for indices that are not negative.\<close>

definition islice :: "'a list \<Rightarrow> nat \<Rightarrow> nat \<Rightarrow> 'a list" where
  "islice xs start stop = take (stop - start) (drop start xs)"

text \<open>
  A Python \<^verbatim>\<open>set\<close> is a list without repetitions; the order of the list stands for
  the order in which Python iterates over the set, which the language leaves open. The
  set a list denotes is \<open>set xs\<close>.
\<close>

type_synonym 'a pyset = "'a list"

definition pyset :: "'a list \<Rightarrow> 'a pyset" where
  "pyset xs = remdups xs"

definition set_diff :: "'a pyset \<Rightarrow> 'a pyset \<Rightarrow> 'a pyset" where
  "set_diff a b = filter (\<lambda>x. x \<notin> set b) a"

definition set_union :: "'a pyset \<Rightarrow> 'a pyset \<Rightarrow> 'a pyset" where
  "set_union a b = a @ filter (\<lambda>x. x \<notin> set a) (remdups b)"

subsection \<open>The assignment decider\<close>

text \<open>
  \<^verbatim>\<open>_decide_partitions(self, participants)\<close>. Its inputs besides the participants are
  \<^verbatim>\<open>self._id\<close> and the values of \<^verbatim>\<open>self._topic.partitions\<close>, a dict whose
  values come in no particular order; the method sorts them by \<open>p_to_str\<close> with
  Python's stable sort. Lengths and indices are natural numbers, on which \<open>div\<close> and
  \<open>mod\<close> are Python 2's \<^verbatim>\<open>/\<close> and \<^verbatim>\<open>%\<close>. The call to \<^verbatim>\<open>log.info\<close> has no
  effect on the result and is left out.
\<close>

definition decide_partitions ::
  "string \<Rightarrow> partition list \<Rightarrow> string list \<Rightarrow> error + partition pyset" where
  "decide_partitions self_id topic_partitions participants =
     (let all_partitions = sort_key p_to_str topic_partitions in
      case index participants self_id of
        None \<Rightarrow> Inl ValueError
      | Some idx \<Rightarrow>
          if length participants = 0 then Inl ZeroDivisionError
          else
            let parts_per_consumer = length all_partitions div length participants;
                remainder_ppc = length all_partitions mod length participants;
                start = parts_per_consumer * idx + min idx remainder_ppc;
                num_parts = parts_per_consumer + (if idx + 1 > remainder_ppc then 0 else 1);
                new_partitions = islice all_partitions start (start + num_parts)
            in Inr (pyset new_partitions))"

text \<open>The share of the peer at an index, the empty set where the decider raises.\<close>

definition share :: "partition list \<Rightarrow> string list \<Rightarrow> nat \<Rightarrow> partition set" where
  "share topic_partitions participants i =
     (case decide_partitions (participants ! i) topic_partitions participants of
        Inl e \<Rightarrow> {}
      | Inr new_partitions \<Rightarrow> set new_partitions)"


subsection \<open>The range assignment in closed form\<close>

text \<open>
  With \<open>n\<close> partitions and \<open>m\<close> peers, the peer at index \<open>i\<close> is given
  \<open>slice_count n m i\<close> partitions from position \<open>slice_start n m i\<close> on.
\<close>

definition slice_start :: "nat \<Rightarrow> nat \<Rightarrow> nat \<Rightarrow> nat" where
  "slice_start n m i = (n div m) * i + min i (n mod m)"

definition slice_count :: "nat \<Rightarrow> nat \<Rightarrow> nat \<Rightarrow> nat" where
  "slice_count n m i = n div m + (if i < n mod m then 1 else 0)"

text \<open>Partitions \<open>0, \<dots>, n - 1\<close> of a topic \<open>t\<close>, all led by broker 0.\<close>

definition example_partitions :: "nat \<Rightarrow> partition list" where
  "example_partitions n =
     map (\<lambda>k. \<lparr>p_topic_name = ''t'', p_leader_id = 0, p_id = int k\<rparr>) [0..<n]"


subsection \<open>ZooKeeper, as the module uses it\<close>

text \<open>
  The kazoo client is a library outside this module. Its store is a list of nodes, each
  path at most once; a node has a payload and the flag \<^verbatim>\<open>ephemeral\<close>. The empty
  path stands for the root, which always exists. \<^verbatim>\<open>get\<close>, \<^verbatim>\<open>get_children\<close> and
  \<^verbatim>\<open>delete\<close> raise \<^verbatim>\<open>NoNodeException\<close> on a path that is not there,
  \<^verbatim>\<open>create\<close> raises \<^verbatim>\<open>NodeExistsError\<close> on a path that is, and
  \<^verbatim>\<open>NoNodeException\<close> when the parent is missing and \<^verbatim>\<open>makepath\<close> is not set.
  Sessions, and with them the expiry of ephemeral nodes, are not part of the model, and
  the nodes the module deletes are leaves.
\<close>

type_synonym znode = "string \<times> bool"

type_synonym zk = "(string \<times> znode) list"

definition parent_path :: "string \<Rightarrow> string" where
  "parent_path p = rev (drop 1 (dropWhile (\<lambda>c. c \<noteq> CHR ''/'') (rev p)))"

definition zk_exists :: "zk \<Rightarrow> string \<Rightarrow> bool" where
  "zk_exists z p = (p = [] \<or> map_of z p \<noteq> None)"

definition zk_get :: "zk \<Rightarrow> string \<Rightarrow> error + string" where
  "zk_get z p = (case map_of z p of None \<Rightarrow> Inl NoNodeException | Some node \<Rightarrow> Inr (fst node))"

fun strip_prefix :: "string \<Rightarrow> string \<Rightarrow> string option" where
  "strip_prefix [] ys = Some ys"
| "strip_prefix (x # xs) [] = None"
| "strip_prefix (x # xs) (y # ys) = (if x = y then strip_prefix xs ys else None)"

text \<open>The name of \<open>q\<close> as a child of \<open>p\<close>, if it is one.\<close>

definition child_of :: "string \<Rightarrow> string \<Rightarrow> string option" where
  "child_of p q =
     (case strip_prefix (p @ ''/'') q of
        None \<Rightarrow> None
      | Some c \<Rightarrow> if c \<noteq> [] \<and> CHR ''/'' \<notin> set c then Some c else None)"

definition zk_get_children :: "zk \<Rightarrow> string \<Rightarrow> error + string list" where
  "zk_get_children z p =
     (if zk_exists z p then Inr (List.map_filter (child_of p) (map fst z))
      else Inl NoNodeException)"

text \<open>\<^verbatim>\<open>ensure_path\<close>: the path and its missing ancestors, as persistent nodes with no payload.\<close>

function ensure_path :: "zk \<Rightarrow> string \<Rightarrow> zk" where
  "ensure_path z p =
     (if zk_exists z p then z else ensure_path z (parent_path p) @ [(p, ([], False))])"
  by pat_completeness auto
termination
proof (relation "measure (\<lambda>(z, p). length p)")
  show "wf (measure (\<lambda>(z, p). length p))" by simp
next
  fix z :: zk and p :: string
  assume "\<not> zk_exists z p"
  then have "p \<noteq> []" by (simp add: zk_exists_def)
  moreover have "length (dropWhile (\<lambda>c. c \<noteq> CHR ''/'') (rev p)) \<le> length p"
    using length_dropWhile_le [of "\<lambda>c. c \<noteq> CHR ''/''" "rev p"] by simp
  ultimately have "length (parent_path p) < length p"
    by (cases p) (simp_all add: parent_path_def)
  then show "((z, parent_path p), (z, p)) \<in> measure (\<lambda>(z, p). length p)" by simp
qed

declare ensure_path.simps [simp del]

definition zk_create :: "zk \<Rightarrow> string \<Rightarrow> string \<Rightarrow> bool \<Rightarrow> bool \<Rightarrow> error + zk" where
  "zk_create z path val ephemeral makepath =
     (let z1 = (if makepath then ensure_path z (parent_path path) else z) in
      if \<not> zk_exists z1 (parent_path path) then Inl NoNodeException
      else if map_of z1 path \<noteq> None then Inl NodeExistsError
      else Inr (z1 @ [(path, (val, ephemeral))]))"

definition zk_delete :: "zk \<Rightarrow> string \<Rightarrow> error + zk" where
  "zk_delete z path =
     (if map_of z path = None then Inl NoNodeException
      else Inr (filter (\<lambda>node. fst node \<noteq> path) z))"

subsection \<open>The consumer object\<close>

text \<open>
  What the object does to the outside, in the order it does it: calls that write to
  ZooKeeper, \<^verbatim>\<open>time.sleep\<close>, the retry message of \<^verbatim>\<open>log.debug\<close>, and the stop and
  the construction of the inner \<^verbatim>\<open>SimpleConsumer\<close>.
\<close>

datatype event =
    ZkCreate string
  | ZkDelete string
  | Sleep nat
  | LogRetrying nat
  | ConsumerStop
  | ConsumerNew "partition list"

text \<open>
  The fields of \<^verbatim>\<open>BalancedConsumer\<close> that the registration and the rebalance read or
  write. \<open>topic_name\<close> and \<open>topic_partitions\<close> are \<^verbatim>\<open>self._topic.name\<close> and
  the values of \<^verbatim>\<open>self._topic.partitions\<close>; \<open>consumer_id\<close> is \<^verbatim>\<open>self._id\<close>;
  \<open>consumer\<close> is \<^verbatim>\<open>self._consumer\<close>, \<open>None\<close> or a \<^verbatim>\<open>SimpleConsumer\<close>, which
  is known by the partitions it was constructed with; \<open>zookeeper\<close> is the store behind
  \<^verbatim>\<open>self._zookeeper\<close>; \<open>trace\<close> records the events so far.
\<close>

record balanced_consumer =
  consumer_group :: string
  topic_name :: string
  topic_partitions :: "partition list"
  consumer :: "partition list option"
  consumer_id :: string
  partitions :: "partition pyset"
  rebalance_retries :: nat
  topic_path :: string
  id_path :: string
  zookeeper :: zk
  trace :: "event list"

text \<open>
  The assignments of \<^verbatim>\<open>__init__\<close> before its first call to ZooKeeper. The id is
  \<^verbatim>\<open>"{}:{}".format(socket.gethostname(), uuid4())\<close>, taken as an argument.
\<close>

definition new_consumer ::
  "string \<Rightarrow> partition list \<Rightarrow> string \<Rightarrow> string \<Rightarrow> zk \<Rightarrow> balanced_consumer" where
  "new_consumer name parts grp ident z =
     \<lparr>consumer_group = grp,
      topic_name = name,
      topic_partitions = parts,
      consumer = None,
      consumer_id = ident,
      partitions = [],
      rebalance_retries = 5,
      topic_path = ''/consumers/'' @ grp @ ''/owners/'' @ name,
      id_path = ''/consumers/'' @ grp @ ''/ids'',
      zookeeper = z,
      trace = []\<rparr>"

text \<open>The two writing calls on \<^verbatim>\<open>self._zookeeper\<close>, with the event they leave.\<close>

definition zookeeper_create ::
  "balanced_consumer \<Rightarrow> string \<Rightarrow> string \<Rightarrow> bool \<Rightarrow> bool \<Rightarrow> error option \<times> balanced_consumer" where
  "zookeeper_create s path val ephemeral makepath =
     (case zk_create (zookeeper s) path val ephemeral makepath of
        Inl e \<Rightarrow> (Some e, s\<lparr>trace := trace s @ [ZkCreate path]\<rparr>)
      | Inr z \<Rightarrow> (None, s\<lparr>zookeeper := z, trace := trace s @ [ZkCreate path]\<rparr>))"

definition zookeeper_delete ::
  "balanced_consumer \<Rightarrow> string \<Rightarrow> error option \<times> balanced_consumer" where
  "zookeeper_delete s path =
     (case zk_delete (zookeeper s) path of
        Inl e \<Rightarrow> (Some e, s\<lparr>trace := trace s @ [ZkDelete path]\<rparr>)
      | Inr z \<Rightarrow> (None, s\<lparr>zookeeper := z, trace := trace s @ [ZkDelete path]\<rparr>))"

text \<open>
  \<^verbatim>\<open>_setup_internal_consumer\<close>: stop the inner consumer if there is one, then
  construct a new one on \<^verbatim>\<open>list(self._partitions)\<close>.
\<close>

definition setup_internal_consumer :: "balanced_consumer \<Rightarrow> balanced_consumer" where
  "setup_internal_consumer s =
     (let s1 = (if consumer s \<noteq> None then s\<lparr>trace := trace s @ [ConsumerStop]\<rparr> else s)
      in s1\<lparr>consumer := Some (partitions s1),
            trace := trace s1 @ [ConsumerNew (partitions s1)]\<rparr>)"

text \<open>
  \<^verbatim>\<open>_get_participants\<close>. The loop over \<^verbatim>\<open>consumer_ids\<close> passes over a child whose
  \<^verbatim>\<open>get\<close> raises \<^verbatim>\<open>NoNodeException\<close>; any other exception leaves the method.
\<close>

fun get_participants_loop ::
  "balanced_consumer \<Rightarrow> string list \<Rightarrow> string list \<Rightarrow> error + string list" where
  "get_participants_loop s [] participants = Inr participants"
| "get_participants_loop s (cid # consumer_ids) participants =
     (case zk_get (zookeeper s) (id_path s @ ''/'' @ cid) of
        Inl e \<Rightarrow>
          if e = NoNodeException then get_participants_loop s consumer_ids participants
          else Inl e
      | Inr topic \<Rightarrow>
          get_participants_loop s consumer_ids
            (if topic = topic_name s then participants @ [cid] else participants))"

definition get_participants :: "balanced_consumer \<Rightarrow> error + string list" where
  "get_participants s =
     (case zk_get_children (zookeeper s) (id_path s) of
        Inl e \<Rightarrow> if e = NoNodeException then Inr [] else Inl e
      | Inr consumer_ids \<Rightarrow>
          (case get_participants_loop s consumer_ids [] of
             Inl e \<Rightarrow> Inl e
           | Inr participants \<Rightarrow> Inr (sort participants)))"

text \<open>\<^verbatim>\<open>_add_self\<close>.\<close>

definition add_self :: "balanced_consumer \<Rightarrow> error option \<times> balanced_consumer" where
  "add_self s =
     (case get_participants s of
        Inl e \<Rightarrow> (Some e, s)
      | Inr participants \<Rightarrow>
          if length (topic_partitions s) \<le> length participants then (None, s)
          else zookeeper_create s (id_path s @ ''/'' @ consumer_id s) (topic_name s) True True)"

text \<open>\<^verbatim>\<open>_path_from_partition\<close>: \<^verbatim>\<open>"%s/%s-%s" % (self._topic_path, p.leader.id, p.id)\<close>.\<close>

definition path_from_partition :: "balanced_consumer \<Rightarrow> partition \<Rightarrow> string" where
  "path_from_partition s p = topic_path s @ ''/'' @ str (p_leader_id p) @ ''-'' @ str (p_id p)"

text \<open>
  \<^verbatim>\<open>_remove_partitions\<close>: the loop asserts and deletes; the owned set is updated after
  the loop, so not at all when the loop raises.
\<close>

fun remove_partitions_loop ::
  "balanced_consumer \<Rightarrow> partition list \<Rightarrow> error option \<times> balanced_consumer" where
  "remove_partitions_loop s [] = (None, s)"
| "remove_partitions_loop s (p # ps) =
     (if p \<notin> set (partitions s) then (Some AssertionError, s)
      else
        (case zookeeper_delete s (path_from_partition s p) of
           (Some e, s1) \<Rightarrow> (Some e, s1)
         | (None, s1) \<Rightarrow> remove_partitions_loop s1 ps))"

definition remove_partitions ::
  "balanced_consumer \<Rightarrow> partition pyset \<Rightarrow> error option \<times> balanced_consumer" where
  "remove_partitions s ps =
     (case remove_partitions_loop s ps of
        (Some e, s1) \<Rightarrow> (Some e, s1)
      | (None, s1) \<Rightarrow> (None, s1\<lparr>partitions := set_diff (partitions s1) ps\<rparr>))"

text \<open>\<^verbatim>\<open>_add_partitions\<close>, of the same shape.\<close>

fun add_partitions_loop ::
  "balanced_consumer \<Rightarrow> partition list \<Rightarrow> error option \<times> balanced_consumer" where
  "add_partitions_loop s [] = (None, s)"
| "add_partitions_loop s (p # ps) =
     (case zookeeper_create s (path_from_partition s p) (consumer_id s) True False of
        (Some e, s1) \<Rightarrow> (Some e, s1)
      | (None, s1) \<Rightarrow> add_partitions_loop s1 ps)"

definition add_partitions ::
  "balanced_consumer \<Rightarrow> partition pyset \<Rightarrow> error option \<times> balanced_consumer" where
  "add_partitions s ps =
     (case add_partitions_loop s ps of
        (Some e, s1) \<Rightarrow> (Some e, s1)
      | (None, s1) \<Rightarrow>
          (None, s1\<lparr>partitions := set_union (partitions s1) (set_diff ps (partitions s1))\<rparr>))"

subsection \<open>The rebalance\<close>

text \<open>
  While the consumer sleeps, the other members of the group go on writing to
  ZooKeeper: \<open>world n z\<close> is what they have made of the store \<open>z\<close> after \<open>n\<close>
  seconds. It is a parameter of the rebalance, so that every statement below holds
  whatever the others do in that time. Between the calls of one pass through the
  loop the store is taken to be left alone.
\<close>

type_synonym world = "nat \<Rightarrow> zk \<Rightarrow> zk"

definition sleep :: "world \<Rightarrow> nat \<Rightarrow> balanced_consumer \<Rightarrow> balanced_consumer" where
  "sleep w n s = s\<lparr>zookeeper := w n (zookeeper s), trace := trace s @ [Sleep n]\<rparr>"

text \<open>
  The head of the loop body for \<^verbatim>\<open>i > 0\<close>:
  \<^verbatim>\<open>log.debug("Retrying in %is" % ((i + 1) ** 2))\<close>, \<^verbatim>\<open>time.sleep(i ** 2)\<close>, and
  the participants and the new partitions computed again.
\<close>

definition retry ::
  "world \<Rightarrow> nat \<Rightarrow> balanced_consumer \<Rightarrow> (error + partition pyset) \<times> balanced_consumer" where
  "retry w i s =
     (let s1 = s\<lparr>trace := trace s @ [LogRetrying ((i + 1) ^ 2)]\<rparr>;
          s2 = sleep w (i ^ 2) s1
      in case get_participants s2 of
           Inl e \<Rightarrow> (Inl e, s2)
         | Inr participants \<Rightarrow>
             (decide_partitions (consumer_id s2) (topic_partitions s2) participants, s2))"

text \<open>
  One pass through the body of \<^verbatim>\<open>for i in xrange(self._rebalance_retries)\<close>. It
  ends in \<^verbatim>\<open>break\<close>, in \<^verbatim>\<open>continue\<close> (on \<^verbatim>\<open>NodeExistsError\<close>) or in an
  exception that leaves \<^verbatim>\<open>_rebalance\<close>; \<^verbatim>\<open>new_partitions\<close> is carried from one
  pass to the next.
\<close>

datatype outcome = Break | Continue | Raise error

definition rebalance_attempt ::
  "world \<Rightarrow> nat \<Rightarrow> partition pyset \<Rightarrow> balanced_consumer \<Rightarrow>
     (outcome \<times> partition pyset) \<times> balanced_consumer" where
  "rebalance_attempt w i new_partitions s =
     (case (if i > 0 then retry w i s else (Inr new_partitions, s)) of
        (Inl e, s1) \<Rightarrow> ((Raise e, new_partitions), s1)
      | (Inr new1, s1) \<Rightarrow>
          (case remove_partitions s1 (set_diff (partitions s1) new1) of
             (Some e, s2) \<Rightarrow> ((Raise e, new1), s2)
           | (None, s2) \<Rightarrow>
               (case add_partitions s2 (set_diff new1 (partitions s2)) of
                  (None, s3) \<Rightarrow> ((Break, new1), s3)
                | (Some e, s3) \<Rightarrow>
                    ((if e = NodeExistsError then Continue else Raise e, new1), s3))))"

fun rebalance_loop ::
  "world \<Rightarrow> nat list \<Rightarrow> partition pyset \<Rightarrow> balanced_consumer \<Rightarrow>
     error option \<times> balanced_consumer" where
  "rebalance_loop w [] new_partitions s = (None, s)"
| "rebalance_loop w (i # is) new_partitions s =
     (case rebalance_attempt w i new_partitions s of
        ((Break, new1), s1) \<Rightarrow> (None, s1)
      | ((Continue, new1), s1) \<Rightarrow> rebalance_loop w is new1 s1
      | ((Raise e, new1), s1) \<Rightarrow> (Some e, s1))"

text \<open>
  \<^verbatim>\<open>_rebalance\<close>. The inner consumer is set up when the loop ends, by \<^verbatim>\<open>break\<close> or
  with the retries used up, and not when an exception leaves the method.
\<close>

definition rebalance :: "world \<Rightarrow> balanced_consumer \<Rightarrow> error option \<times> balanced_consumer" where
  "rebalance w s =
     (case get_participants s of
        Inl e \<Rightarrow> (Some e, s)
      | Inr participants \<Rightarrow>
          (case decide_partitions (consumer_id s) (topic_partitions s) participants of
             Inl e \<Rightarrow> (Some e, s)
           | Inr new_partitions \<Rightarrow>
               (case rebalance_loop w [0..<rebalance_retries s] new_partitions s of
                  (Some e, s1) \<Rightarrow> (Some e, s1)
                | (None, s1) \<Rightarrow> (None, setup_internal_consumer s1))))"

subsection \<open>Example stores\<close>

text \<open>A world in which nobody else writes.\<close>

definition quiet :: world where
  "quiet n z = z"

text \<open>
  The group \<open>g\<close> on the topic \<open>t\<close>: the registry and the owners' directory exist,
  and the members listed are registered for \<open>t\<close>.
\<close>

definition group_store :: "string list \<Rightarrow> zk" where
  "group_store members =
     [(''/consumers'', ([], False)),
      (''/consumers/g'', ([], False)),
      (''/consumers/g/ids'', ([], False)),
      (''/consumers/g/owners'', ([], False)),
      (''/consumers/g/owners/t'', ([], False))] @
     map (\<lambda>m. (''/consumers/g/ids/'' @ m, (''t'', True))) members"

text \<open>The ownership node of partition \<open>k\<close> of \<open>example_partitions\<close>, held by \<open>owner\<close>.\<close>

definition owner_node :: "nat \<Rightarrow> string \<Rightarrow> string \<times> znode" where
  "owner_node k owner = (''/consumers/g/owners/t/0-'' @ str (int k), (owner, True))"

text \<open>
  The consumer \<open>b\<close> as \<^verbatim>\<open>__init__\<close> has it before registering, on the topic \<open>t\<close>
  with \<open>n\<close> partitions, facing the store \<open>z\<close>.
\<close>

definition newcomer :: "nat \<Rightarrow> zk \<Rightarrow> balanced_consumer" where
  "newcomer n z = new_consumer ''t'' (example_partitions n) ''g'' ''b'' z"

subsection \<open>Notions for the statements\<close>

text \<open>The fields that are set once in \<^verbatim>\<open>__init__\<close> and only read afterwards.\<close>

definition config ::
  "balanced_consumer \<Rightarrow> string \<times> string \<times> partition list \<times> string \<times> nat \<times> string \<times> string" where
  "config s =
     (consumer_group s, topic_name s, topic_partitions s, consumer_id s, rebalance_retries s,
      topic_path s, id_path s)"

text \<open>The seconds slept, and the seconds announced by the retry message, in a trace.\<close>

fun sleeps :: "event list \<Rightarrow> nat list" where
  "sleeps [] = []"
| "sleeps (Sleep n # es) = n # sleeps es"
| "sleeps (e # es) = sleeps es"

fun announced :: "event list \<Rightarrow> nat list" where
  "announced [] = []"
| "announced (LogRetrying n # es) = n # announced es"
| "announced (e # es) = announced es"

text \<open>
  The consumer \<open>b\<close>, registered beside \<open>a\<close> on four partitions, holding partition 0
  in \<^verbatim>\<open>self._partitions\<close>: once with its ownership node in the store, once with the
  node gone.
\<close>

definition owner_example :: balanced_consumer where
  "owner_example =
     (newcomer 4 (group_store [''a'', ''b''] @ [owner_node 0 ''b'']))
       \<lparr>partitions := [example_partitions 4 ! 0]\<rparr>"

definition lost_node_example :: balanced_consumer where
  "lost_node_example =
     (newcomer 4 (group_store [''a'', ''b'']))\<lparr>partitions := [example_partitions 4 ! 0]\<rparr>"

text \<open>
  The consumer \<open>b\<close>, registered beside \<open>a\<close> on four partitions and owning nothing
  yet, while a consumer \<open>c\<close> still holds the ownership node of partition 3.
\<close>

definition contention_example :: balanced_consumer where
  "contention_example = newcomer 4 (group_store [''a'', ''b''] @ [owner_node 3 ''c''])"

text \<open>
  The consumer \<open>b\<close> after it has registered beside \<open>a\<close> on four partitions and
  rebalanced once, in a quiet world: it owns its share and runs an inner consumer on it.
\<close>

definition settled_example :: balanced_consumer where
  "settled_example = snd (rebalance quiet (snd (add_self (newcomer 4 (group_store [''a''])))))"
section \<open>Properties of the assignment decider\<close>


lemma index_SomeD:
  "index xs x = Some i \<Longrightarrow> i < length xs \<and> xs ! i = x \<and> x \<notin> set (take i xs)"
proof (induction xs arbitrary: i)
  case Nil
  then show ?case by simp
next
  case (Cons y ys)
  show ?case
  proof (cases "y = x")
    case True
    with Cons.prems show ?thesis by simp
  next
    case False
    with Cons.prems obtain j where j: "index ys x = Some j" "i = Suc j"
      by (auto split: option.splits)
    from Cons.IH [OF j(1)] False j(2) show ?thesis by simp
  qed
qed

lemma index_SomeI:
  "i < length xs \<Longrightarrow> xs ! i = x \<Longrightarrow> x \<notin> set (take i xs) \<Longrightarrow> index xs x = Some i"
proof (induction xs arbitrary: i)
  case Nil
  then show ?case by simp
next
  case (Cons y ys)
  show ?case
  proof (cases i)
    case 0
    with Cons.prems show ?thesis by simp
  next
    case (Suc j)
    with Cons.prems have "j < length ys" "ys ! j = x" "x \<notin> set (take j ys)" "y \<noteq> x"
      by auto
    with Cons.IH [of j] Suc show ?thesis by simp
  qed
qed

lemma index_nth_distinct:
  "distinct xs \<Longrightarrow> i < length xs \<Longrightarrow> index xs (xs ! i) = Some i"
  by (rule index_SomeI) (auto simp: in_set_conv_nth distinct_conv_nth)

lemma slice_start_Suc: "slice_start n m (Suc i) = slice_start n m i + slice_count n m i"
  by (simp add: slice_start_def slice_count_def min_def)

lemma slice_start_0: "slice_start n m 0 = 0"
  by (simp add: slice_start_def)

lemma slice_start_all: "0 < m \<Longrightarrow> slice_start n m m = n"
proof -
  assume "0 < m"
  then have "n mod m < m" by simp
  then have "min m (n mod m) = n mod m" by simp
  then show ?thesis by (simp add: slice_start_def)
qed

lemma slice_start_mono: "i \<le> j \<Longrightarrow> slice_start n m i \<le> slice_start n m j"
  unfolding slice_start_def by (intro add_mono mult_le_mono) auto

lemma slice_start_le: "0 < m \<Longrightarrow> i \<le> m \<Longrightarrow> slice_start n m i \<le> n"
  using slice_start_mono [of i m n m] slice_start_all [of m n] by simp

lemma set_islice:
  assumes "b \<le> length xs"
  shows "set (islice xs a b) = (\<lambda>k. xs ! k) ` {a..<b}"
proof (cases "a \<le> b")
  case True
  have len: "length (islice xs a b) = b - a"
    using assms True by (simp add: islice_def)
  have nth: "islice xs a b ! j = xs ! (a + j)" if "j < b - a" for j
    using that assms by (simp add: islice_def)
  show ?thesis
  proof (intro set_eqI iffI)
    fix x assume "x \<in> set (islice xs a b)"
    then obtain j where "j < b - a" "x = xs ! (a + j)"
      using len nth by (auto simp: in_set_conv_nth)
    then show "x \<in> (\<lambda>k. xs ! k) ` {a..<b}" by auto
  next
    fix x assume "x \<in> (\<lambda>k. xs ! k) ` {a..<b}"
    then obtain k where k: "a \<le> k" "k < b" "x = xs ! k" by auto
    then have "k - a < b - a" "x = islice xs a b ! (k - a)" using nth [of "k - a"] by auto
    then show "x \<in> set (islice xs a b)" using len by (metis nth_mem)
  qed
next
  case False
  then show ?thesis by (simp add: islice_def)
qed

lemma slice_union:
  "k \<le> m \<Longrightarrow> (\<Union>i<k. {slice_start n m i ..< slice_start n m (Suc i)}) = {0 ..< slice_start n m k}"
proof (induction k)
  case 0
  then show ?case by (simp add: slice_start_0)
next
  case (Suc k)
  have "slice_start n m k \<le> slice_start n m (Suc k)" by (rule slice_start_mono) simp
  with Suc show ?case
    by (auto simp: lessThan_Suc)
qed

lemma slice_disjoint:
  assumes "i < j"
  shows "{slice_start n m i ..< slice_start n m (Suc i)} \<inter> {slice_start n m j ..< slice_start n m (Suc j)} = {}"
proof -
  have "slice_start n m (Suc i) \<le> slice_start n m j"
    using assms by (intro slice_start_mono) simp
  then show ?thesis by auto
qed

lemma decide_partitions_eq:
  assumes "index participants self_id = Some i"
  shows "decide_partitions self_id parts participants =
     Inr (pyset (islice (sort_key p_to_str parts)
        (slice_start (length parts) (length participants) i)
        (slice_start (length parts) (length participants) (Suc i))))"
proof -
  from assms have "i < length participants" by (simp add: index_SomeD)
  then have "length participants \<noteq> 0" by auto
  then show ?thesis using assms
    by (simp add: decide_partitions_def Let_def slice_start_Suc) (simp add: slice_start_def slice_count_def)
qed


lemma set_decide_partitions:
  assumes "index participants self_id = Some i"
  shows "\<exists>new_partitions.
     decide_partitions self_id parts participants = Inr new_partitions \<and>
     distinct new_partitions \<and>
     set new_partitions = (\<lambda>k. sort_key p_to_str parts ! k) `
        {slice_start (length parts) (length participants) i ..<
         slice_start (length parts) (length participants) (Suc i)}"
proof -
  from assms have i: "i < length participants" by (simp add: index_SomeD)
  then have "0 < length participants" by auto
  with i have "slice_start (length parts) (length participants) (Suc i)
      \<le> length (sort_key p_to_str parts)"
    using slice_start_le [of "length participants" "Suc i" "length parts"] by simp
  then show ?thesis
    using decide_partitions_eq [OF assms, of parts]
    by (simp add: pyset_def set_islice)
qed

text \<open>
  Claim C1. With the topic's partitions sorted by their canonical string into a list of
  length \<open>n\<close>, and a peer list of length \<open>m\<close> in which \<^verbatim>\<open>self._id\<close> is found at
  index \<open>i\<close> (the index \<^verbatim>\<open>participants.index\<close> returns, the first occurrence), the
  decider returns, as a set, the slice of \<open>count\<close> partitions from position \<open>start\<close>,
  where \<open>base = n div m\<close>, \<open>rem = n mod m\<close>, \<open>start = base * i + min i rem\<close> and
  \<open>count = base + (if i < rem then 1 else 0)\<close>. When the topic's partitions are handed
  over already sorted, this is the slice of the input itself.
\<close>

theorem decide_partitions_slice:
  assumes "i < length peers" and "peers ! i = self_id" and "self_id \<notin> set (take i peers)"
  shows "let sorted_parts = sort_key p_to_str parts;
             n = length sorted_parts; m = length peers;
             base = n div m; rem = n mod m;
             start = base * i + min i rem;
             count = base + (if i < rem then 1 else 0)
         in \<exists>new_partitions.
              decide_partitions self_id parts peers = Inr new_partitions \<and>
              set new_partitions = set (take count (drop start sorted_parts)) \<and>
              (sorted (map p_to_str parts) \<longrightarrow>
                 set new_partitions = set (take count (drop start parts)))"
proof -
  have idx: "index peers self_id = Some i" using assms by (rule index_SomeI)
  have "sort_key p_to_str parts = parts"
    if "sorted (map p_to_str parts)"
    using that by (rule sort_key_id_if_sorted)
  then show ?thesis
    using decide_partitions_eq [OF idx, of parts]
    by (auto simp: Let_def slice_start_Suc islice_def pyset_def)
      (auto simp: slice_start_def slice_count_def)
qed

theorem decide_partitions_slice_witness:
  "(1::nat) < length [''a'', ''b'', ''c''] \<and> [''a'', ''b'', ''c''] ! 1 = ''b'' \<and>
   ''b'' \<notin> set (take 1 [''a'', ''b'', ''c'']) \<and>
   sorted (map p_to_str (example_partitions 7)) \<and>
   (\<exists>new_partitions.
      decide_partitions ''b'' (example_partitions 7) [''a'', ''b'', ''c''] = Inr new_partitions \<and>
      set new_partitions = set (take 2 (drop 3 (example_partitions 7))))"
proof -
  have s: "sorted (map p_to_str (example_partitions 7))"
    by code_simp
  have l: "length (example_partitions 7) = 7"
    by (simp add: example_partitions_def)
  show ?thesis
    using decide_partitions_slice [of 1 "[''a'', ''b'', ''c'']" "''b''" "example_partitions 7"]
    by (auto simp: s l Let_def)
qed

lemma share_eq:
  assumes "distinct peers" and "i < length peers"
  shows "(\<exists>new_partitions. decide_partitions (peers ! i) parts peers = Inr new_partitions) \<and>
     share parts peers i =
       (\<lambda>k. sort_key p_to_str parts ! k) `
         {slice_start (length parts) (length peers) i ..<
          slice_start (length parts) (length peers) (Suc i)}"
  using set_decide_partitions [OF index_nth_distinct [OF assms], of parts]
  by (auto simp: share_def)

text \<open>
  Claim C2. For a peer list without repetitions of length \<open>m \<ge> 1\<close> and any list of
  distinct partitions, running the decider once for every peer index never raises, the
  union of the shares is the whole partition set, and the shares of two different
  indices are disjoint.
\<close>

theorem decide_partitions_cover:
  assumes "distinct peers" and "peers \<noteq> []" and "distinct parts"
  shows "(\<forall>i<length peers. \<exists>new_partitions.
            decide_partitions (peers ! i) parts peers = Inr new_partitions) \<and>
         (\<Union>i<length peers. share parts peers i) = set parts \<and>
         (\<forall>i<length peers. \<forall>j<length peers. i \<noteq> j \<longrightarrow>
            share parts peers i \<inter> share parts peers j = {})"
proof (intro conjI allI impI)
  fix i assume "i < length peers"
  then show "\<exists>new_partitions. decide_partitions (peers ! i) parts peers = Inr new_partitions"
    using share_eq [OF assms(1)] by blast
next
  let ?n = "length parts" and ?m = "length peers"
  let ?xs = "sort_key p_to_str parts"
  have m: "0 < ?m" using assms(2) by simp
  have "(\<Union>i<?m. share parts peers i) =
      (\<Union>i<?m. (\<lambda>k. ?xs ! k) ` {slice_start ?n ?m i ..< slice_start ?n ?m (Suc i)})"
    using share_eq [OF assms(1)] by simp
  also have "\<dots> = (\<lambda>k. ?xs ! k) ` (\<Union>i<?m. {slice_start ?n ?m i ..< slice_start ?n ?m (Suc i)})"
    by blast
  also have "\<dots> = (\<lambda>k. ?xs ! k) ` {0 ..< ?n}"
    using slice_union [of ?m ?m ?n] slice_start_all [OF m, of ?n] by simp
  also have "\<dots> = set ?xs"
    using set_conv_nth [of ?xs] by auto
  finally show "(\<Union>i<?m. share parts peers i) = set parts"
    by simp
next
  fix i j assume ij: "i < length peers" "j < length peers" "i \<noteq> j"
  let ?n = "length parts" and ?m = "length peers"
  let ?xs = "sort_key p_to_str parts"
  let ?I = "\<lambda>i. {slice_start ?n ?m i ..< slice_start ?n ?m (Suc i)}"
  have m: "0 < ?m" using assms(2) by simp
  have sub: "?I k \<subseteq> {0 ..< length ?xs}" if "k < ?m" for k
    using slice_start_le [OF m, of "Suc k" ?n] that by auto
  have disj: "?I i \<inter> ?I j = {}"
  proof (cases "i < j")
    case True
    then show ?thesis by (rule slice_disjoint)
  next
    case False
    with ij(3) have "j < i" by simp
    then have "?I j \<inter> ?I i = {}" by (rule slice_disjoint)
    then show ?thesis by blast
  qed
  have "distinct ?xs" using assms(3) by simp
  then have inj: "inj_on (\<lambda>k. ?xs ! k) {0 ..< length ?xs}"
    by (auto simp: inj_on_def nth_eq_iff_index_eq)
  have "(\<lambda>k. ?xs ! k) ` ?I i \<inter> (\<lambda>k. ?xs ! k) ` ?I j = (\<lambda>k. ?xs ! k) ` (?I i \<inter> ?I j)"
    using inj_on_image_Int [OF inj sub [OF ij(1)] sub [OF ij(2)]] by simp
  then show "share parts peers i \<inter> share parts peers j = {}"
    using share_eq [OF assms(1) ij(1), of parts]
      share_eq [OF assms(1) ij(2), of parts] disj
    by simp
qed

theorem decide_partitions_cover_witness:
  "distinct [''a'', ''b'', ''c''] \<and> [''a'', ''b'', ''c''] \<noteq> [] \<and>
   distinct (example_partitions 7) \<and>
   share (example_partitions 7) [''a'', ''b'', ''c''] 0 \<union>
   share (example_partitions 7) [''a'', ''b'', ''c''] 1 \<union>
   share (example_partitions 7) [''a'', ''b'', ''c''] 2 = set (example_partitions 7) \<and>
   share (example_partitions 7) [''a'', ''b'', ''c''] 0 \<inter>
   share (example_partitions 7) [''a'', ''b'', ''c''] 1 = {} \<and>
   share (example_partitions 7) [''a'', ''b'', ''c''] 0 \<inter>
   share (example_partitions 7) [''a'', ''b'', ''c''] 2 = {} \<and>
   share (example_partitions 7) [''a'', ''b'', ''c''] 1 \<inter>
   share (example_partitions 7) [''a'', ''b'', ''c''] 2 = {}"
proof -
  have d: "distinct (example_partitions 7)"
    by (simp add: example_partitions_def distinct_map inj_on_def)
  have u: "(\<Union>i<3. f i) = f 0 \<union> f 1 \<union> f (2::nat)" for f :: "nat \<Rightarrow> partition set"
  proof -
    have "{..<3::nat} = {0, 1, 2}" by auto
    then show ?thesis by auto
  qed
  have three: "length [''a'', ''b'', ''c''] = 3" by simp
  have h: "distinct [''a'', ''b'', ''c'']" "[''a'', ''b'', ''c''] \<noteq> []" by simp_all
  note c = decide_partitions_cover [OF h d, unfolded three]
  note c1 = c [THEN conjunct2, THEN conjunct1, unfolded u]
  note c2 = c [THEN conjunct2, THEN conjunct2, rule_format]
  have "share (example_partitions 7) [''a'', ''b'', ''c''] 0 \<inter>
     share (example_partitions 7) [''a'', ''b'', ''c''] 1 = {}"
    by (rule c2) simp_all
  moreover have "share (example_partitions 7) [''a'', ''b'', ''c''] 0 \<inter>
     share (example_partitions 7) [''a'', ''b'', ''c''] 2 = {}"
    by (rule c2) simp_all
  moreover have "share (example_partitions 7) [''a'', ''b'', ''c''] 1 \<inter>
     share (example_partitions 7) [''a'', ''b'', ''c''] 2 = {}"
    by (rule c2) simp_all
  ultimately show ?thesis using h d c1 by blast
qed



section \<open>Properties of the store\<close>

lemma strip_prefix_Some: "strip_prefix xs ys = Some zs \<longleftrightarrow> ys = xs @ zs"
  by (induction xs ys rule: strip_prefix.induct) auto

lemma child_of_Some:
  "child_of p q = Some c \<longleftrightarrow> q = p @ ''/'' @ c \<and> c \<noteq> [] \<and> CHR ''/'' \<notin> set c"
proof (cases "strip_prefix (p @ ''/'') q")
  case None
  have "q \<noteq> (p @ ''/'') @ c"
  proof
    assume "q = (p @ ''/'') @ c"
    then have "strip_prefix (p @ ''/'') q = Some c" by (simp only: strip_prefix_Some)
    with None show False by simp
  qed
  with None show ?thesis by (simp add: child_of_def)
next
  case (Some d)
  then have q: "q = (p @ ''/'') @ d" by (simp only: strip_prefix_Some)
  have "child_of p q = (if d \<noteq> [] \<and> CHR ''/'' \<notin> set d then Some d else None)"
    using Some by (simp add: child_of_def)
  moreover have "q = p @ ''/'' @ c \<longleftrightarrow> d = c" unfolding q by simp
  ultimately show ?thesis by auto
qed

lemma set_map_filter: "set (List.map_filter f xs) = {y. \<exists>x\<in>set xs. f x = Some y}"
  by (induction xs) (auto simp: List.map_filter_simps split: option.splits)

lemma map_of_eq_None_fst: "map_of z p = None \<longleftrightarrow> p \<notin> fst ` set z"
  by (simp add: map_of_eq_None_iff)

lemma set_children:
  "set (List.map_filter (child_of p) (map fst z)) =
     {c. c \<noteq> [] \<and> CHR ''/'' \<notin> set c \<and> map_of z (p @ ''/'' @ c) \<noteq> None}"
  by (auto simp: set_map_filter child_of_Some map_of_eq_None_fst)

lemma zk_get_Inl: "zk_get z p = Inl e \<longleftrightarrow> e = NoNodeException \<and> map_of z p = None"
  by (auto simp: zk_get_def split: option.splits)

lemma length_parent_path: "p \<noteq> [] \<Longrightarrow> length (parent_path p) < length p"
proof -
  assume "p \<noteq> []"
  moreover have "length (dropWhile (\<lambda>c. c \<noteq> CHR ''/'') (rev p)) \<le> length p"
    using length_dropWhile_le [of "\<lambda>c. c \<noteq> CHR ''/''" "rev p"] by simp
  ultimately show ?thesis
    by (cases p) (simp_all add: parent_path_def)
qed

lemma zk_exists_ensure_path: "zk_exists (ensure_path z p) p"
proof (cases "zk_exists z p")
  case True
  then show ?thesis by (simp add: ensure_path.simps [of z p])
next
  case False
  then show ?thesis
    by (simp add: ensure_path.simps [of z p] zk_exists_def [of "_ @ _"])
qed

lemma map_of_ensure_path_old:
  "map_of z q = Some v \<Longrightarrow> map_of (ensure_path z p) q = Some v"
proof (induction z p rule: ensure_path.induct)
  case (1 z p)
  show ?case
  proof (cases "zk_exists z p")
    case True
    with "1.prems" show ?thesis by (simp add: ensure_path.simps [of z p])
  next
    case False
    with "1.IH" "1.prems" show ?thesis
      by (simp add: ensure_path.simps [of z p] map_add_def)
  qed
qed

lemma map_of_ensure_path_longer:
  "length p < length q \<Longrightarrow> map_of (ensure_path z p) q = map_of z q"
proof (induction z p rule: ensure_path.induct)
  case (1 z p)
  show ?case
  proof (cases "zk_exists z p")
    case True
    then show ?thesis by (simp add: ensure_path.simps [of z p])
  next
    case False
    then have "p \<noteq> []" by (simp add: zk_exists_def)
    then have "length (parent_path p) < length q"
      using length_parent_path [of p] "1.prems" by simp
    moreover have "p \<noteq> q" using "1.prems" by auto
    ultimately show ?thesis
      using "1.IH" [OF False] False
      by (simp add: ensure_path.simps [of z p] map_add_def split: option.splits)
  qed
qed

lemma zk_create_makepath:
  assumes "map_of z path = None" and "path \<noteq> []"
  shows "zk_create z path val ephemeral True =
     Inr (ensure_path z (parent_path path) @ [(path, (val, ephemeral))])"
proof -
  have "map_of (ensure_path z (parent_path path)) path = None"
    using map_of_ensure_path_longer [OF length_parent_path [OF assms(2)], of z] assms(1) by simp
  then show ?thesis
    by (simp add: zk_create_def zk_exists_ensure_path)
qed

section \<open>Properties of the membership\<close>

lemma get_participants_loop_eq:
  "get_participants_loop s consumer_ids participants =
     Inr (participants @
       filter (\<lambda>c. zk_get (zookeeper s) (id_path s @ ''/'' @ c) = Inr (topic_name s)) consumer_ids)"
proof (induction consumer_ids arbitrary: participants)
  case Nil
  then show ?case by simp
next
  case (Cons c consumer_ids)
  show ?case
  proof (cases "zk_get (zookeeper s) (id_path s @ ''/'' @ c)")
    case (Inl e)
    then have "e = NoNodeException" by (simp add: zk_get_Inl)
    with Inl Cons.IH show ?thesis by simp
  next
    case (Inr topic)
    with Cons.IH show ?thesis by simp
  qed
qed

lemma get_participants_eq:
  "get_participants s =
     (case zk_get_children (zookeeper s) (id_path s) of
        Inl e \<Rightarrow> Inr []
      | Inr consumer_ids \<Rightarrow>
          Inr (sort (filter (\<lambda>c. zk_get (zookeeper s) (id_path s @ ''/'' @ c) = Inr (topic_name s))
            consumer_ids)))"
  by (auto simp: get_participants_def get_participants_loop_eq zk_get_children_def
      split: sum.splits)

text \<open>
  Claim C9. \<^verbatim>\<open>_get_participants\<close> returns the children of \<^verbatim>\<open>self._id_path\<close> whose
  payload is the topic's name, sorted ascending; the loop passes over a listed child
  whose node is gone when it is read, whatever list of children it is run on; and when
  the parent path does not exist the result is the empty list, not an error.
\<close>

theorem get_participants_sorted_members:
  "(\<exists>participants. get_participants s = Inr participants \<and> sorted participants \<and>
      (if zk_exists (zookeeper s) (id_path s)
       then participants =
              sort (filter (\<lambda>c. zk_get (zookeeper s) (id_path s @ ''/'' @ c) = Inr (topic_name s))
                (List.map_filter (child_of (id_path s)) (map fst (zookeeper s)))) \<and>
            set participants =
              {c. c \<noteq> [] \<and> CHR ''/'' \<notin> set c \<and>
                  zk_get (zookeeper s) (id_path s @ ''/'' @ c) = Inr (topic_name s)}
       else zk_get_children (zookeeper s) (id_path s) = Inl NoNodeException \<and>
            participants = [])) \<and>
   (zk_get (zookeeper s) (id_path s @ ''/'' @ gone) = Inl NoNodeException \<longrightarrow>
      get_participants_loop s (before @ gone # after) [] =
      get_participants_loop s (before @ after) [])"
proof (intro conjI impI)
  show "\<exists>participants. get_participants s = Inr participants \<and> sorted participants \<and>
      (if zk_exists (zookeeper s) (id_path s)
       then participants =
              sort (filter (\<lambda>c. zk_get (zookeeper s) (id_path s @ ''/'' @ c) = Inr (topic_name s))
                (List.map_filter (child_of (id_path s)) (map fst (zookeeper s)))) \<and>
            set participants =
              {c. c \<noteq> [] \<and> CHR ''/'' \<notin> set c \<and>
                  zk_get (zookeeper s) (id_path s @ ''/'' @ c) = Inr (topic_name s)}
       else zk_get_children (zookeeper s) (id_path s) = Inl NoNodeException \<and>
            participants = [])"
  proof (cases "zk_exists (zookeeper s) (id_path s)")
    case True
    have "zk_get (zookeeper s) p = Inr t \<Longrightarrow> map_of (zookeeper s) p \<noteq> None" for p t
      by (cases "map_of (zookeeper s) p") (simp_all add: zk_get_def)
    with True show ?thesis
      by (auto simp: get_participants_eq zk_get_children_def set_children)
  next
    case False
    then show ?thesis
      by (simp add: get_participants_eq zk_get_children_def)
  qed
next
  assume "zk_get (zookeeper s) (id_path s @ ''/'' @ gone) = Inl NoNodeException"
  then show "get_participants_loop s (before @ gone # after) [] =
      get_participants_loop s (before @ after) []"
    by (simp add: get_participants_loop_eq)
qed

theorem get_participants_sorted_members_witness:
  "zk_exists (zookeeper (newcomer 2 (group_store [''b'', ''a'']))) ''/consumers/g/ids'' \<and>
   get_participants (newcomer 2 (group_store [''b'', ''a''])) = Inr [''a'', ''b''] \<and>
   zk_get (zookeeper (newcomer 2 (group_store [''b'', ''a'']))) ''/consumers/g/ids/gone'' =
     Inl NoNodeException \<and>
   get_participants_loop (newcomer 2 (group_store [''b'', ''a''])) [''b'', ''gone'', ''a''] [] =
     Inr [''b'', ''a''] \<and>
   \<not> zk_exists (zookeeper (newcomer 2 [])) ''/consumers/g/ids'' \<and>
   get_participants (newcomer 2 []) = Inr []"
proof -
  let ?s = "newcomer 2 (group_store [''b'', ''a''])"
  have p: "id_path ?s = ''/consumers/g/ids''" "id_path (newcomer 2 []) = ''/consumers/g/ids''"
    by (simp_all add: newcomer_def new_consumer_def)
  have e: "zk_exists (zookeeper ?s) ''/consumers/g/ids''"
    by code_simp
  have v: "sort (filter (\<lambda>c. zk_get (zookeeper ?s) (id_path ?s @ ''/'' @ c) = Inr (topic_name ?s))
      (List.map_filter (child_of (id_path ?s)) (map fst (zookeeper ?s)))) = [''a'', ''b'']"
    by code_simp
  have g: "zk_get (zookeeper ?s) ''/consumers/g/ids/gone'' = Inl NoNodeException"
    by code_simp
  have l: "get_participants_loop ?s [''b'', ''a''] [] = Inr [''b'', ''a'']"
    by code_simp
  have n: "\<not> zk_exists (zookeeper (newcomer 2 [])) ''/consumers/g/ids''"
    by code_simp
  show ?thesis
    using get_participants_sorted_members [of ?s "''gone''" "[''b'']" "[''a'']"]
      get_participants_sorted_members [of "newcomer 2 []"] e v g l n
    unfolding p by auto
qed

text \<open>
  Claim C8. For a consumer whose own member node is not in the store yet (its id is
  fresh), \<^verbatim>\<open>_add_self\<close> creates the ephemeral node \<^verbatim>\<open>self._id_path/self._id\<close> with
  the topic's name as payload, leaving the nodes that exist as they are, exactly when
  the participants are fewer than the partitions; otherwise it returns without an
  error and without any write.
\<close>

theorem add_self_guard:
  assumes "map_of (zookeeper s) (id_path s @ ''/'' @ consumer_id s) = None"
  shows "\<exists>participants. get_participants s = Inr participants \<and>
     (if length participants < length (topic_partitions s)
      then \<exists>s'. add_self s = (None, s') \<and>
             map_of (zookeeper s') (id_path s @ ''/'' @ consumer_id s) = Some (topic_name s, True) \<and>
             (\<forall>q v. map_of (zookeeper s) q = Some v \<longrightarrow> map_of (zookeeper s') q = Some v) \<and>
             trace s' = trace s @ [ZkCreate (id_path s @ ''/'' @ consumer_id s)] \<and>
             partitions s' = partitions s \<and> consumer s' = consumer s
      else add_self s = (None, s))"
proof -
  let ?path = "id_path s @ ''/'' @ consumer_id s"
  let ?z1 = "ensure_path (zookeeper s) (parent_path ?path)"
  obtain participants where p: "get_participants s = Inr participants"
    by (cases "zk_get_children (zookeeper s) (id_path s)") (simp_all add: get_participants_eq)
  have c: "zk_create (zookeeper s) ?path (topic_name s) True True =
      Inr (?z1 @ [(?path, (topic_name s, True))])"
    using assms by (intro zk_create_makepath) simp_all
  have longer: "map_of ?z1 ?path = None"
    using map_of_ensure_path_longer [of "parent_path ?path" ?path "zookeeper s"]
      length_parent_path [of ?path] assms by simp
  show ?thesis
  proof (cases "length participants < length (topic_partitions s)")
    case True
    let ?s' = "s\<lparr>zookeeper := ?z1 @ [(?path, (topic_name s, True))],
                  trace := trace s @ [ZkCreate ?path]\<rparr>"
    have "add_self s = (None, ?s')"
      using True p c by (simp add: add_self_def zookeeper_create_def)
    moreover have "map_of (zookeeper ?s') ?path = Some (topic_name s, True)"
      using longer by (simp add: map_add_def)
    moreover have "map_of (zookeeper ?s') q = Some v" if "map_of (zookeeper s) q = Some v" for q v
      using map_of_ensure_path_old [OF that, of "parent_path ?path"] that assms
      by (auto simp: map_add_def)
    ultimately show ?thesis using True p by auto
  next
    case False
    then show ?thesis using p by (simp add: add_self_def)
  qed
qed

theorem add_self_guard_witness:
  "map_of (zookeeper (newcomer 4 (group_store [''a'']))) ''/consumers/g/ids/b'' = None \<and>
   get_participants (newcomer 4 (group_store [''a''])) = Inr [''a''] \<and>
   fst (add_self (newcomer 4 (group_store [''a'']))) = None \<and>
   map_of (zookeeper (snd (add_self (newcomer 4 (group_store [''a''])))))
     ''/consumers/g/ids/b'' = Some (''t'', True) \<and>
   map_of (zookeeper (newcomer 1 (group_store [''a'']))) ''/consumers/g/ids/b'' = None \<and>
   get_participants (newcomer 1 (group_store [''a''])) = Inr [''a''] \<and>
   add_self (newcomer 1 (group_store [''a''])) = (None, newcomer 1 (group_store [''a'']))"
proof -
  let ?s4 = "newcomer 4 (group_store [''a''])" and ?s1 = "newcomer 1 (group_store [''a''])"
  have f: "id_path ?s4 = ''/consumers/g/ids''" "consumer_id ?s4 = ''b''" "topic_name ?s4 = ''t''"
    "id_path ?s1 = ''/consumers/g/ids''" "consumer_id ?s1 = ''b''"
    "length (topic_partitions ?s4) = 4" "length (topic_partitions ?s1) = 1"
    by (simp_all add: newcomer_def new_consumer_def example_partitions_def)
  have a4: "map_of (zookeeper ?s4) ''/consumers/g/ids/b'' = None"
    by code_simp
  have a1: "map_of (zookeeper ?s1) ''/consumers/g/ids/b'' = None"
    by code_simp
  have g4: "get_participants ?s4 = Inr [''a'']"
    by code_simp
  have g1: "get_participants ?s1 = Inr [''a'']"
    by code_simp
  show ?thesis
    using add_self_guard [of ?s4] add_self_guard [of ?s1] a4 a1 g4 g1
    unfolding f by auto
qed

section \<open>Properties of the release and the acquire step\<close>

lemma zookeeper_delete_absent:
  "map_of (zookeeper s) path = None \<Longrightarrow>
   zookeeper_delete s path = (Some NoNodeException, s\<lparr>trace := trace s @ [ZkDelete path]\<rparr>)"
  by (simp add: zookeeper_delete_def zk_delete_def)

lemma zookeeper_delete_present:
  "map_of (zookeeper s) path = Some node \<Longrightarrow>
   zookeeper_delete s path =
     (None, s\<lparr>zookeeper := filter (\<lambda>node. fst node \<noteq> path) (zookeeper s),
              trace := trace s @ [ZkDelete path]\<rparr>)"
  by (simp add: zookeeper_delete_def zk_delete_def)

lemma zookeeper_create_ok:
  "zk_exists (zookeeper s) (parent_path path) \<Longrightarrow> map_of (zookeeper s) path = None \<Longrightarrow>
   zookeeper_create s path val ephemeral False =
     (None, s\<lparr>zookeeper := zookeeper s @ [(path, (val, ephemeral))],
              trace := trace s @ [ZkCreate path]\<rparr>)"
  by (simp add: zookeeper_create_def zk_create_def)

lemma zookeeper_create_raises:
  "\<not> (zk_exists (zookeeper s) (parent_path path) \<and> map_of (zookeeper s) path = None) \<Longrightarrow>
   zookeeper_create s path val ephemeral False =
     (Some (if zk_exists (zookeeper s) (parent_path path) then NodeExistsError else NoNodeException),
      s\<lparr>trace := trace s @ [ZkCreate path]\<rparr>)"
  by (cases "map_of (zookeeper s) path") (simp_all add: zookeeper_create_def zk_create_def)

lemma path_from_partition_cong:
  "config s' = config s \<Longrightarrow> path_from_partition s' = path_from_partition s"
  by (rule ext) (simp add: path_from_partition_def config_def)

text \<open>What the two loops leave alone, and the events they add.\<close>

lemma remove_partitions_loop_fields:
  "config (snd (remove_partitions_loop s ps)) = config s \<and>
   partitions (snd (remove_partitions_loop s ps)) = partitions s \<and>
   consumer (snd (remove_partitions_loop s ps)) = consumer s"
proof (induction ps arbitrary: s)
  case Nil
  show ?case by simp
next
  case (Cons p ps)
  let ?path = "path_from_partition s p"
  show ?case
  proof (cases "map_of (zookeeper s) ?path")
    case None
    then show ?thesis
      by (simp add: zookeeper_delete_absent config_def)
  next
    case (Some node)
    let ?s1 = "s\<lparr>zookeeper := filter (\<lambda>node. fst node \<noteq> ?path) (zookeeper s),
                  trace := trace s @ [ZkDelete ?path]\<rparr>"
    have "config ?s1 = config s" "partitions ?s1 = partitions s" "consumer ?s1 = consumer s"
      by (simp_all add: config_def)
    with Cons.IH [of ?s1] show ?thesis
      by (simp add: zookeeper_delete_present [OF Some])
  qed
qed

lemma remove_partitions_loop_trace:
  "\<exists>k. trace (snd (remove_partitions_loop s ps)) =
          trace s @ map ZkDelete (take k (map (path_from_partition s) ps)) \<and>
        (fst (remove_partitions_loop s ps) = None \<longrightarrow> length ps \<le> k)"
proof (induction ps arbitrary: s)
  case Nil
  show ?case by simp
next
  case (Cons p ps)
  let ?path = "path_from_partition s p"
  show ?case
  proof (cases "p \<in> set (partitions s)")
    case False
    then have "trace (snd (remove_partitions_loop s (p # ps))) =
          trace s @ map ZkDelete (take 0 (map (path_from_partition s) (p # ps))) \<and>
        (fst (remove_partitions_loop s (p # ps)) = None \<longrightarrow> length (p # ps) \<le> 0)"
      by simp
    then show ?thesis by (rule exI)
  next
    case True
    show ?thesis
    proof (cases "map_of (zookeeper s) ?path")
      case None
      then have "trace (snd (remove_partitions_loop s (p # ps))) =
          trace s @ map ZkDelete (take 1 (map (path_from_partition s) (p # ps))) \<and>
        (fst (remove_partitions_loop s (p # ps)) = None \<longrightarrow> length (p # ps) \<le> 1)"
        using True by (simp add: zookeeper_delete_absent)
      then show ?thesis by (rule exI)
    next
      case (Some node)
      let ?s1 = "s\<lparr>zookeeper := filter (\<lambda>node. fst node \<noteq> ?path) (zookeeper s),
                    trace := trace s @ [ZkDelete ?path]\<rparr>"
      have step: "remove_partitions_loop s (p # ps) = remove_partitions_loop ?s1 ps"
        using True by (simp add: zookeeper_delete_present [OF Some])
      have pf: "path_from_partition ?s1 = path_from_partition s"
        by (rule path_from_partition_cong) (simp add: config_def)
      from Cons.IH [of ?s1] obtain k where
        k: "trace (snd (remove_partitions_loop ?s1 ps)) =
              trace ?s1 @ map ZkDelete (take k (map (path_from_partition ?s1) ps))"
          "fst (remove_partitions_loop ?s1 ps) = None \<longrightarrow> length ps \<le> k"
        by (elim exE conjE)
      have "trace (snd (remove_partitions_loop s (p # ps))) =
          trace s @ map ZkDelete (take (Suc k) (map (path_from_partition s) (p # ps))) \<and>
        (fst (remove_partitions_loop s (p # ps)) = None \<longrightarrow> length (p # ps) \<le> Suc k)"
        using k unfolding step pf by simp
      then show ?thesis by (rule exI)
    qed
  qed
qed

lemma add_partitions_loop_fields:
  "config (snd (add_partitions_loop s ps)) = config s \<and>
   partitions (snd (add_partitions_loop s ps)) = partitions s \<and>
   consumer (snd (add_partitions_loop s ps)) = consumer s"
proof (induction ps arbitrary: s)
  case Nil
  show ?case by simp
next
  case (Cons p ps)
  let ?path = "path_from_partition s p"
  show ?case
  proof (cases "zk_exists (zookeeper s) (parent_path ?path) \<and> map_of (zookeeper s) ?path = None")
    case False
    show ?thesis
      by (simp add: zookeeper_create_raises [OF False] config_def)
  next
    case True
    let ?s1 = "s\<lparr>zookeeper := zookeeper s @ [(?path, (consumer_id s, True))],
                  trace := trace s @ [ZkCreate ?path]\<rparr>"
    have "config ?s1 = config s" "partitions ?s1 = partitions s" "consumer ?s1 = consumer s"
      by (simp_all add: config_def)
    with Cons.IH [of ?s1] True show ?thesis
      by (simp add: zookeeper_create_ok)
  qed
qed

lemma add_partitions_loop_trace:
  "\<exists>k. trace (snd (add_partitions_loop s ps)) =
          trace s @ map ZkCreate (take k (map (path_from_partition s) ps))"
proof (induction ps arbitrary: s)
  case Nil
  show ?case by simp
next
  case (Cons p ps)
  let ?path = "path_from_partition s p"
  show ?case
  proof (cases "zk_exists (zookeeper s) (parent_path ?path) \<and> map_of (zookeeper s) ?path = None")
    case False
    have "trace (snd (add_partitions_loop s (p # ps))) =
        trace s @ map ZkCreate (take 1 (map (path_from_partition s) (p # ps)))"
      by (simp add: zookeeper_create_raises [OF False])
    then show ?thesis by (rule exI)
  next
    case True
    let ?s1 = "s\<lparr>zookeeper := zookeeper s @ [(?path, (consumer_id s, True))],
                  trace := trace s @ [ZkCreate ?path]\<rparr>"
    have step: "add_partitions_loop s (p # ps) = add_partitions_loop ?s1 ps"
      using True by (simp add: zookeeper_create_ok)
    have pf: "path_from_partition ?s1 = path_from_partition s"
      by (rule path_from_partition_cong) (simp add: config_def)
    from Cons.IH [of ?s1] obtain k where
      "trace (snd (add_partitions_loop ?s1 ps)) =
         trace ?s1 @ map ZkCreate (take k (map (path_from_partition ?s1) ps))"
      by (elim exE)
    then have "trace (snd (add_partitions_loop s (p # ps))) =
        trace s @ map ZkCreate (take (Suc k) (map (path_from_partition s) (p # ps)))"
      unfolding step pf by simp
    then show ?thesis by (rule exI)
  qed
qed

lemma remove_partitions_fields:
  "config (snd (remove_partitions s ps)) = config s \<and>
   consumer (snd (remove_partitions s ps)) = consumer s \<and>
   partitions (snd (remove_partitions s ps)) =
     (if fst (remove_partitions s ps) = None then set_diff (partitions s) ps else partitions s)"
proof -
  obtain r s1 where l: "remove_partitions_loop s ps = (r, s1)"
    by (cases "remove_partitions_loop s ps")
  with remove_partitions_loop_fields [of s ps] show ?thesis
    by (cases r) (simp_all add: remove_partitions_def config_def)
qed

lemma remove_partitions_loop_rel:
  "trace (snd (remove_partitions s ps)) = trace (snd (remove_partitions_loop s ps)) \<and>
   zookeeper (snd (remove_partitions s ps)) = zookeeper (snd (remove_partitions_loop s ps)) \<and>
   fst (remove_partitions s ps) = fst (remove_partitions_loop s ps)"
proof -
  obtain r s1 where l: "remove_partitions_loop s ps = (r, s1)"
    by (cases "remove_partitions_loop s ps")
  then show ?thesis
    by (cases r) (simp_all add: remove_partitions_def)
qed

lemma add_partitions_fields:
  "config (snd (add_partitions s ps)) = config s \<and>
   consumer (snd (add_partitions s ps)) = consumer s \<and>
   partitions (snd (add_partitions s ps)) =
     (if fst (add_partitions s ps) = None
      then set_union (partitions s) (set_diff ps (partitions s)) else partitions s)"
proof -
  obtain r s1 where l: "add_partitions_loop s ps = (r, s1)"
    by (cases "add_partitions_loop s ps")
  with add_partitions_loop_fields [of s ps] show ?thesis
    by (cases r) (simp_all add: add_partitions_def config_def)
qed

lemma add_partitions_loop_rel:
  "trace (snd (add_partitions s ps)) = trace (snd (add_partitions_loop s ps)) \<and>
   zookeeper (snd (add_partitions s ps)) = zookeeper (snd (add_partitions_loop s ps)) \<and>
   fst (add_partitions s ps) = fst (add_partitions_loop s ps)"
proof -
  obtain r s1 where l: "add_partitions_loop s ps = (r, s1)"
    by (cases "add_partitions_loop s ps")
  then show ?thesis
    by (cases r) (simp_all add: add_partitions_def)
qed

lemma map_of_filter_fst:
  "map_of (filter (\<lambda>node. fst node \<noteq> a) z) q = (if q = a then None else map_of z q)"
  by (induction z) auto

lemma filter_filter_fst:
  "filter (\<lambda>node. fst node \<notin> A) (filter (\<lambda>node. fst node \<noteq> a) z) =
   filter (\<lambda>node. fst node \<notin> insert a A) z"
  by (induction z) auto

lemma remove_partitions_loop_ok:
  assumes "set ps \<subseteq> set (partitions s)"
    and "distinct (map (path_from_partition s) ps)"
    and "\<forall>p\<in>set ps. map_of (zookeeper s) (path_from_partition s p) \<noteq> None"
  shows "fst (remove_partitions_loop s ps) = None \<and>
     zookeeper (snd (remove_partitions_loop s ps)) =
       filter (\<lambda>node. fst node \<notin> path_from_partition s ` set ps) (zookeeper s) \<and>
     trace (snd (remove_partitions_loop s ps)) =
       trace s @ map ZkDelete (map (path_from_partition s) ps)"
  using assms
proof (induction ps arbitrary: s)
  case Nil
  show ?case by simp
next
  case (Cons p ps)
  let ?path = "path_from_partition s p"
  let ?s1 = "s\<lparr>zookeeper := filter (\<lambda>node. fst node \<noteq> ?path) (zookeeper s),
                trace := trace s @ [ZkDelete ?path]\<rparr>"
  from Cons.prems(3) obtain node where node: "map_of (zookeeper s) ?path = Some node"
    by auto
  have owned: "p \<in> set (partitions s)" using Cons.prems(1) by simp
  have step: "remove_partitions_loop s (p # ps) = remove_partitions_loop ?s1 ps"
    using owned by (simp add: zookeeper_delete_present [OF node])
  have pf: "path_from_partition ?s1 = path_from_partition s"
    by (rule path_from_partition_cong) (simp add: config_def)
  have 1: "set ps \<subseteq> set (partitions ?s1)" using Cons.prems(1) by simp
  have 2: "distinct (map (path_from_partition ?s1) ps)"
    using Cons.prems(2) unfolding pf by simp
  have 3: "\<forall>q\<in>set ps. map_of (zookeeper ?s1) (path_from_partition ?s1 q) \<noteq> None"
  proof
    fix q assume q: "q \<in> set ps"
    have "?path \<notin> path_from_partition s ` set ps" using Cons.prems(2) by simp
    with q have "path_from_partition s q \<noteq> ?path" by (metis imageI)
    moreover have "map_of (zookeeper s) (path_from_partition s q) \<noteq> None"
      using Cons.prems(3) q by simp
    ultimately show "map_of (zookeeper ?s1) (path_from_partition ?s1 q) \<noteq> None"
      unfolding pf by (simp add: map_of_filter_fst)
  qed
  from Cons.IH [OF 1 2 3] show ?case
    unfolding step pf by (simp add: filter_filter_fst)
qed

lemma remove_partitions_loop_absent:
  assumes "set ps \<subseteq> set (partitions s)"
    and "p \<in> set ps" and "map_of (zookeeper s) (path_from_partition s p) = None"
  shows "fst (remove_partitions_loop s ps) = Some NoNodeException"
  using assms
proof (induction ps arbitrary: s)
  case Nil
  then show ?case by simp
next
  case (Cons q ps)
  let ?path = "path_from_partition s q"
  have owned: "q \<in> set (partitions s)" using Cons.prems(1) by simp
  show ?case
  proof (cases "map_of (zookeeper s) ?path")
    case None
    then show ?thesis using owned by (simp add: zookeeper_delete_absent)
  next
    case (Some node)
    let ?s1 = "s\<lparr>zookeeper := filter (\<lambda>node. fst node \<noteq> ?path) (zookeeper s),
                  trace := trace s @ [ZkDelete ?path]\<rparr>"
    have step: "remove_partitions_loop s (q # ps) = remove_partitions_loop ?s1 ps"
      using owned by (simp add: zookeeper_delete_present [OF Some])
    have pf: "path_from_partition ?s1 = path_from_partition s"
      by (rule path_from_partition_cong) (simp add: config_def)
    have "p \<noteq> q" using Some Cons.prems(3) by auto
    then have 2: "p \<in> set ps" using Cons.prems(2) by simp
    have 1: "set ps \<subseteq> set (partitions ?s1)" using Cons.prems(1) by simp
    have 3: "map_of (zookeeper ?s1) (path_from_partition ?s1 p) = None"
      unfolding pf using Cons.prems(3) by (simp add: map_of_filter_fst)
    from Cons.IH [OF 1 2 3] show ?thesis unfolding step .
  qed
qed

lemma remove_partitions_absent:
  assumes "p \<in> set ps" and "set ps \<subseteq> set (partitions s)"
    and "map_of (zookeeper s) (path_from_partition s p) = None"
  shows "fst (remove_partitions s ps) = Some NoNodeException \<and>
     partitions (snd (remove_partitions s ps)) = partitions s \<and>
     consumer (snd (remove_partitions s ps)) = consumer s"
  using remove_partitions_loop_absent [OF assms(2,1,3)] remove_partitions_fields [of s ps]
    remove_partitions_loop_rel [of s ps]
  by simp

lemma retry_fields:
  "partitions (snd (retry w i s)) = partitions s \<and> consumer (snd (retry w i s)) = consumer s"
  by (simp add: retry_def Let_def sleep_def split: sum.splits)

text \<open>A pass whose release step meets an absent node ends the loop with the exception.\<close>

lemma rebalance_attempt_release_absent:
  assumes "(if 0 < i then retry w i s else (Inr new_partitions, s)) = (Inr new1, s1)"
    and "p \<in> set (set_diff (partitions s1) new1)"
    and "map_of (zookeeper s1) (path_from_partition s1 p) = None"
  shows "fst (rebalance_attempt w i new_partitions s) = (Raise NoNodeException, new1) \<and>
     partitions (snd (rebalance_attempt w i new_partitions s)) = partitions s \<and>
     consumer (snd (rebalance_attempt w i new_partitions s)) = consumer s"
proof -
  let ?rel = "set_diff (partitions s1) new1"
  have sub: "set ?rel \<subseteq> set (partitions s1)" by (auto simp: set_diff_def)
  note a = remove_partitions_absent [OF assms(2) sub assms(3)]
  obtain r2 s2 where r: "remove_partitions s1 ?rel = (r2, s2)"
    by (cases "remove_partitions s1 ?rel")
  with a have r2: "r2 = Some NoNodeException"
    and f2: "partitions s2 = partitions s1" "consumer s2 = consumer s1"
    by simp_all
  have s1: "partitions s1 = partitions s" "consumer s1 = consumer s"
  proof -
    show "partitions s1 = partitions s"
    proof (cases "0 < i")
      case True
      with assms(1) have "s1 = snd (retry w i s)" by simp
      then show ?thesis by (simp add: retry_fields)
    next
      case False
      with assms(1) show ?thesis by simp
    qed
    show "consumer s1 = consumer s"
    proof (cases "0 < i")
      case True
      with assms(1) have "s1 = snd (retry w i s)" by simp
      then show ?thesis by (simp add: retry_fields)
    next
      case False
      with assms(1) show ?thesis by simp
    qed
  qed
  have "rebalance_attempt w i new_partitions s = ((Raise NoNodeException, new1), s2)"
    unfolding rebalance_attempt_def assms(1) using r r2 by simp
  then show ?thesis using r f2 s1 by simp
qed

lemma rebalance_loop_raise:
  assumes "fst (fst (rebalance_attempt w i new_partitions s)) = Raise e"
  shows "rebalance_loop w (i # rest) new_partitions s =
     (Some e, snd (rebalance_attempt w i new_partitions s))"
proof -
  obtain out new1 s1 where a: "rebalance_attempt w i new_partitions s = ((out, new1), s1)"
    by (cases "rebalance_attempt w i new_partitions s") auto
  with assms have "out = Raise e" by simp
  with a show ?thesis by simp
qed

lemma rebalance_loop_continue:
  assumes "fst (fst (rebalance_attempt w i new_partitions s)) = Continue"
  shows "rebalance_loop w (i # rest) new_partitions s =
     rebalance_loop w rest (snd (fst (rebalance_attempt w i new_partitions s)))
       (snd (rebalance_attempt w i new_partitions s))"
proof -
  obtain out new1 s1 where a: "rebalance_attempt w i new_partitions s = ((out, new1), s1)"
    by (cases "rebalance_attempt w i new_partitions s") auto
  with assms have "out = Continue" by simp
  with a show ?thesis by simp
qed

lemma rebalance_raise:
  assumes "get_participants s = Inr participants"
    and "decide_partitions (consumer_id s) (topic_partitions s) participants = Inr new_partitions"
    and "fst (rebalance_loop w [0..<rebalance_retries s] new_partitions s) = Some e"
  shows "rebalance w s =
     (Some e, snd (rebalance_loop w [0..<rebalance_retries s] new_partitions s))"
proof -
  obtain r s1 where l: "rebalance_loop w [0..<rebalance_retries s] new_partitions s = (r, s1)"
    by (cases "rebalance_loop w [0..<rebalance_retries s] new_partitions s")
  with assms(3) have "r = Some e" by simp
  with l assms(1,2) show ?thesis by (simp add: rebalance_def)
qed

lemma rebalance_release_absent:
  assumes "get_participants s = Inr participants"
    and "decide_partitions (consumer_id s) (topic_partitions s) participants = Inr new_partitions"
    and "0 < rebalance_retries s"
    and "p \<in> set (set_diff (partitions s) new_partitions)"
    and "map_of (zookeeper s) (path_from_partition s p) = None"
  shows "fst (rebalance w s) = Some NoNodeException \<and>
     partitions (snd (rebalance w s)) = partitions s \<and>
     consumer (snd (rebalance w s)) = consumer s"
proof -
  let ?s2 = "snd (rebalance_attempt w 0 new_partitions s)"
  have first: "(if 0 < (0::nat) then retry w 0 s else (Inr new_partitions, s)) =
      (Inr new_partitions, s)"
    by simp
  note a = rebalance_attempt_release_absent [OF first assms(4,5)]
  from assms(3) have u: "[0..<rebalance_retries s] = 0 # [1..<rebalance_retries s]"
    by (simp add: upt_conv_Cons)
  have "fst (fst (rebalance_attempt w 0 new_partitions s)) = Raise NoNodeException"
    using a by simp
  from rebalance_loop_raise [OF this, of "[1..<rebalance_retries s]"]
  have l: "rebalance_loop w [0..<rebalance_retries s] new_partitions s =
      (Some NoNodeException, ?s2)"
    unfolding u by simp
  then have "fst (rebalance_loop w [0..<rebalance_retries s] new_partitions s) =
      Some NoNodeException" by simp
  from rebalance_raise [OF assms(1,2) this] l
  have "rebalance w s = (Some NoNodeException, ?s2)" by simp
  then show ?thesis using a by simp
qed

text \<open>
  Claim C4, amended. A release step whose partitions are all owned, with distinct
  ownership paths, completes and takes the partitions out of the owned set when every
  ownership node it deletes exists. When one of the nodes is absent,
  \<^verbatim>\<open>_remove_partitions\<close> does not catch the \<^verbatim>\<open>NoNodeException\<close> of
  \<^verbatim>\<open>delete\<close>: the exception leaves the method and the owned set stays as it was.
  Nor does \<^verbatim>\<open>_rebalance\<close> catch it: in whichever pass through the loop the release
  step meets an absent node, on the partitions owned and not in the new set of that
  pass, the pass and the loop end with the exception, whatever passes remain; a
  rebalance whose loop raises returns the exception, and the inner consumer is not set
  up. So a rebalance with an absent ownership node among the partitions to release in
  its first pass raises \<^verbatim>\<open>NoNodeException\<close>, with the owned set and the inner
  consumer as they were.
\<close>

theorem remove_partitions_needs_nodes:
  "(set ps \<subseteq> set (partitions s) \<longrightarrow> distinct (map (path_from_partition s) ps) \<longrightarrow>
      (if \<forall>p\<in>set ps. map_of (zookeeper s) (path_from_partition s p) \<noteq> None
       then fst (remove_partitions s ps) = None \<and>
         partitions (snd (remove_partitions s ps)) = set_diff (partitions s) ps \<and>
         zookeeper (snd (remove_partitions s ps)) =
           filter (\<lambda>node. fst node \<notin> path_from_partition s ` set ps) (zookeeper s) \<and>
         trace (snd (remove_partitions s ps)) =
           trace s @ map ZkDelete (map (path_from_partition s) ps)
       else fst (remove_partitions s ps) = Some NoNodeException \<and>
         partitions (snd (remove_partitions s ps)) = partitions s)) \<and>
   ((if 0 < i then retry w i s else (Inr new_partitions, s)) = (Inr new1, s1) \<longrightarrow>
    (\<exists>p\<in>set (set_diff (partitions s1) new1).
        map_of (zookeeper s1) (path_from_partition s1 p) = None) \<longrightarrow>
      fst (fst (rebalance_attempt w i new_partitions s)) = Raise NoNodeException \<and>
      partitions (snd (rebalance_attempt w i new_partitions s)) = partitions s \<and>
      consumer (snd (rebalance_attempt w i new_partitions s)) = consumer s \<and>
      rebalance_loop w (i # rest) new_partitions s =
        (Some NoNodeException, snd (rebalance_attempt w i new_partitions s))) \<and>
   (fst (fst (rebalance_attempt w i new_partitions s)) = Continue \<longrightarrow>
      rebalance_loop w (i # rest) new_partitions s =
        rebalance_loop w rest (snd (fst (rebalance_attempt w i new_partitions s)))
          (snd (rebalance_attempt w i new_partitions s))) \<and>
   (get_participants s = Inr participants \<longrightarrow>
    decide_partitions (consumer_id s) (topic_partitions s) participants = Inr targets \<longrightarrow>
      (fst (rebalance_loop w [0..<rebalance_retries s] targets s) = Some e \<longrightarrow>
         rebalance w s = (Some e, snd (rebalance_loop w [0..<rebalance_retries s] targets s))) \<and>
      (0 < rebalance_retries s \<longrightarrow>
       (\<exists>p\<in>set (set_diff (partitions s) targets).
           map_of (zookeeper s) (path_from_partition s p) = None) \<longrightarrow>
         fst (rebalance w s) = Some NoNodeException \<and>
         partitions (snd (rebalance w s)) = partitions s \<and>
         consumer (snd (rebalance w s)) = consumer s))"
proof (intro conjI impI)
  assume sub: "set ps \<subseteq> set (partitions s)"
    and dist: "distinct (map (path_from_partition s) ps)"
  show "if \<forall>p\<in>set ps. map_of (zookeeper s) (path_from_partition s p) \<noteq> None
       then fst (remove_partitions s ps) = None \<and>
         partitions (snd (remove_partitions s ps)) = set_diff (partitions s) ps \<and>
         zookeeper (snd (remove_partitions s ps)) =
           filter (\<lambda>node. fst node \<notin> path_from_partition s ` set ps) (zookeeper s) \<and>
         trace (snd (remove_partitions s ps)) =
           trace s @ map ZkDelete (map (path_from_partition s) ps)
       else fst (remove_partitions s ps) = Some NoNodeException \<and>
         partitions (snd (remove_partitions s ps)) = partitions s"
  proof (cases "\<forall>p\<in>set ps. map_of (zookeeper s) (path_from_partition s p) \<noteq> None")
    case True
    from remove_partitions_loop_ok [OF sub dist True] remove_partitions_fields [of s ps]
      remove_partitions_loop_rel [of s ps] True
    show ?thesis by simp
  next
    case False
    then obtain p where "p \<in> set ps" "\<not> map_of (zookeeper s) (path_from_partition s p) \<noteq> None"
      by blast
    then have "p \<in> set ps" "map_of (zookeeper s) (path_from_partition s p) = None"
      by blast+
    from remove_partitions_absent [OF this(1) sub this(2)] False
    show ?thesis by simp
  qed
next
  assume pass: "(if 0 < i then retry w i s else (Inr new_partitions, s)) = (Inr new1, s1)"
    and "\<exists>p\<in>set (set_diff (partitions s1) new1).
        map_of (zookeeper s1) (path_from_partition s1 p) = None"
  then obtain p where p: "p \<in> set (set_diff (partitions s1) new1)"
    "map_of (zookeeper s1) (path_from_partition s1 p) = None"
    by (elim bexE)
  note a = rebalance_attempt_release_absent [OF pass p]
  from a show out: "fst (fst (rebalance_attempt w i new_partitions s)) = Raise NoNodeException"
    by simp
  from a show "partitions (snd (rebalance_attempt w i new_partitions s)) = partitions s"
    by simp
  from a show "consumer (snd (rebalance_attempt w i new_partitions s)) = consumer s"
    by simp
  from out show "rebalance_loop w (i # rest) new_partitions s =
        (Some NoNodeException, snd (rebalance_attempt w i new_partitions s))"
    by (rule rebalance_loop_raise)
next
  assume "fst (fst (rebalance_attempt w i new_partitions s)) = Continue"
  then show "rebalance_loop w (i # rest) new_partitions s =
        rebalance_loop w rest (snd (fst (rebalance_attempt w i new_partitions s)))
          (snd (rebalance_attempt w i new_partitions s))"
    by (rule rebalance_loop_continue)
next
  assume "get_participants s = Inr participants"
    and "decide_partitions (consumer_id s) (topic_partitions s) participants = Inr targets"
    and "fst (rebalance_loop w [0..<rebalance_retries s] targets s) = Some e"
  then show "rebalance w s =
      (Some e, snd (rebalance_loop w [0..<rebalance_retries s] targets s))"
    by (rule rebalance_raise)
next
  assume g: "get_participants s = Inr participants"
    and d: "decide_partitions (consumer_id s) (topic_partitions s) participants = Inr targets"
    and r: "0 < rebalance_retries s"
    and "\<exists>p\<in>set (set_diff (partitions s) targets).
           map_of (zookeeper s) (path_from_partition s p) = None"
  then obtain p where p: "p \<in> set (set_diff (partitions s) targets)"
    "map_of (zookeeper s) (path_from_partition s p) = None"
    by (elim bexE)
  note a = rebalance_release_absent [OF g d r p, of w]
  from a show "fst (rebalance w s) = Some NoNodeException" by simp
  from a show "partitions (snd (rebalance w s)) = partitions s" by simp
  from a show "consumer (snd (rebalance w s)) = consumer s" by simp
qed

theorem remove_partitions_needs_nodes_witness:
  "set [example_partitions 4 ! 0] \<subseteq> set (partitions owner_example) \<and>
   distinct (map (path_from_partition owner_example) [example_partitions 4 ! 0]) \<and>
   map_of (zookeeper owner_example) ''/consumers/g/owners/t/0-0'' = Some (''b'', True) \<and>
   fst (remove_partitions owner_example [example_partitions 4 ! 0]) = None \<and>
   partitions (snd (remove_partitions owner_example [example_partitions 4 ! 0])) = [] \<and>
   set [example_partitions 4 ! 0] \<subseteq> set (partitions lost_node_example) \<and>
   distinct (map (path_from_partition lost_node_example) [example_partitions 4 ! 0]) \<and>
   map_of (zookeeper lost_node_example) ''/consumers/g/owners/t/0-0'' = None \<and>
   fst (remove_partitions lost_node_example [example_partitions 4 ! 0]) = Some NoNodeException \<and>
   partitions (snd (remove_partitions lost_node_example [example_partitions 4 ! 0])) =
     [example_partitions 4 ! 0] \<and>
   retry quiet 1 lost_node_example =
     (Inr (drop 2 (example_partitions 4)),
      sleep quiet 1 (lost_node_example\<lparr>trace := [LogRetrying 4]\<rparr>)) \<and>
   fst (fst (rebalance_attempt quiet 1 [] lost_node_example)) = Raise NoNodeException \<and>
   partitions (snd (rebalance_attempt quiet 1 [] lost_node_example)) =
     [example_partitions 4 ! 0] \<and>
   fst (rebalance_loop quiet [1, 2, 3, 4] [] lost_node_example) = Some NoNodeException \<and>
   fst (fst (rebalance_attempt quiet 0 (drop 2 (example_partitions 4)) contention_example)) =
     Continue \<and>
   rebalance_loop quiet [0, 1] (drop 2 (example_partitions 4)) contention_example =
     rebalance_loop quiet [1]
       (snd (fst (rebalance_attempt quiet 0 (drop 2 (example_partitions 4)) contention_example)))
       (snd (rebalance_attempt quiet 0 (drop 2 (example_partitions 4)) contention_example)) \<and>
   get_participants lost_node_example = Inr [''a'', ''b''] \<and>
   decide_partitions (consumer_id lost_node_example) (topic_partitions lost_node_example)
     [''a'', ''b''] = Inr (drop 2 (example_partitions 4)) \<and>
   0 < rebalance_retries lost_node_example \<and>
   fst (rebalance quiet lost_node_example) = Some NoNodeException \<and>
   partitions (snd (rebalance quiet lost_node_example)) = [example_partitions 4 ! 0] \<and>
   consumer (snd (rebalance quiet lost_node_example)) = None"
proof -
  let ?p = "example_partitions 4 ! 0"
  let ?new = "drop 2 (example_partitions 4)"
  let ?s1 = "sleep quiet 1 (lost_node_example\<lparr>trace := [LogRetrying 4]\<rparr>)"
  have p: "path_from_partition owner_example ?p = ''/consumers/g/owners/t/0-0''"
    "path_from_partition lost_node_example ?p = ''/consumers/g/owners/t/0-0''"
    by code_simp+
  have o: "partitions owner_example = [?p]" "partitions lost_node_example = [?p]"
    "consumer lost_node_example = None"
    by (simp_all add: owner_example_def lost_node_example_def newcomer_def new_consumer_def)
  have n: "map_of (zookeeper owner_example) ''/consumers/g/owners/t/0-0'' = Some (''b'', True)"
    "map_of (zookeeper lost_node_example) ''/consumers/g/owners/t/0-0'' = None"
    by code_simp+
  note A = remove_partitions_needs_nodes [where ps = "[?p]" and s = owner_example]
  note B = remove_partitions_needs_nodes [where ps = "[?p]" and s = lost_node_example
      and w = quiet and i = 1 and new_partitions = "[]" and ?new1.0 = ?new and ?s1.0 = ?s1
      and rest = "[2, 3, 4]" and participants = "[''a'', ''b'']" and targets = ?new]
  note C = remove_partitions_needs_nodes [where s = contention_example and w = quiet
      and i = 0 and new_partitions = ?new and rest = "[1]"]
  have h1: "set [?p] \<subseteq> set (partitions owner_example)"
    and h2: "distinct (map (path_from_partition owner_example) [?p])"
    and h3: "set [?p] \<subseteq> set (partitions lost_node_example)"
    and h4: "distinct (map (path_from_partition lost_node_example) [?p])"
    by (simp_all add: o)
  have r1: "fst (remove_partitions owner_example [?p]) = None \<and>
      partitions (snd (remove_partitions owner_example [?p])) = []"
    using A [THEN conjunct1] by (simp add: p o n set_diff_def)
  have r2: "fst (remove_partitions lost_node_example [?p]) = Some NoNodeException \<and>
      partitions (snd (remove_partitions lost_node_example [?p])) = [?p]"
    using B [THEN conjunct1] by (simp add: p o n)
  have t: "(if 0 < (1::nat) then retry quiet 1 lost_node_example else (Inr [], lost_node_example)) =
      (Inr ?new, ?s1)"
    by code_simp
  have t': "retry quiet 1 lost_node_example = (Inr ?new, ?s1)"
    by code_simp
  have ab: "\<exists>p\<in>set (set_diff (partitions ?s1) ?new).
      map_of (zookeeper ?s1) (path_from_partition ?s1 p) = None"
    by code_simp
  note b2 = B [THEN conjunct2, THEN conjunct1, rule_format, OF t ab]
  note b2a = b2 [THEN conjunct1]
  have b2b: "partitions (snd (rebalance_attempt quiet 1 [] lost_node_example)) = [?p]"
    by (simp only: b2 [THEN conjunct2, THEN conjunct1] o)
  have b2d: "fst (rebalance_loop quiet [1, 2, 3, 4] [] lost_node_example) = Some NoNodeException"
    by (simp only: b2 [THEN conjunct2, THEN conjunct2, THEN conjunct2] fst_conv)
  have c0: "fst (fst (rebalance_attempt quiet 0 ?new contention_example)) = Continue"
    by code_simp
  note c3 = C [THEN conjunct2, THEN conjunct2, THEN conjunct1, rule_format, OF c0]
  have g: "get_participants lost_node_example = Inr [''a'', ''b'']"
    by code_simp
  have d: "decide_partitions (consumer_id lost_node_example) (topic_partitions lost_node_example)
     [''a'', ''b''] = Inr ?new"
    by code_simp
  have k: "0 < rebalance_retries lost_node_example"
    by code_simp
  have ab0: "\<exists>p\<in>set (set_diff (partitions lost_node_example) ?new).
      map_of (zookeeper lost_node_example) (path_from_partition lost_node_example p) = None"
    by code_simp
  note b4 = B [THEN conjunct2, THEN conjunct2, THEN conjunct2, rule_format, OF g d]
  note b5 = b4 [THEN conjunct2, rule_format, OF k ab0]
  note b5a = b5 [THEN conjunct1]
  have b5b: "partitions (snd (rebalance quiet lost_node_example)) = [?p]"
    by (simp only: b5 [THEN conjunct2, THEN conjunct1] o)
  have b5c: "consumer (snd (rebalance quiet lost_node_example)) = None"
    by (simp only: b5 [THEN conjunct2, THEN conjunct2] o)
  show ?thesis
    by (intro conjI)
      (rule h1, rule h2, rule n(1), rule r1 [THEN conjunct1], rule r1 [THEN conjunct2],
        rule h3, rule h4, rule n(2), rule r2 [THEN conjunct1], rule r2 [THEN conjunct2],
        rule t', rule b2a, rule b2b, rule b2d, rule c0, rule c3, rule g, rule d, rule k,
        rule b5a, rule b5b, rule b5c)
qed

theorem release_absent_node_counterexample:
  "example_partitions 4 ! 0 \<in> set (partitions lost_node_example) \<and>
   zk_get (zookeeper lost_node_example)
     (path_from_partition lost_node_example (example_partitions 4 ! 0)) = Inl NoNodeException \<and>
   decide_partitions (consumer_id lost_node_example) (topic_partitions lost_node_example)
     [''a'', ''b''] = Inr (drop 2 (example_partitions 4)) \<and>
   set_diff (partitions lost_node_example) (drop 2 (example_partitions 4)) =
     [example_partitions 4 ! 0] \<and>
   fst (remove_partitions lost_node_example [example_partitions 4 ! 0]) = Some NoNodeException \<and>
   partitions (snd (remove_partitions lost_node_example [example_partitions 4 ! 0])) =
     [example_partitions 4 ! 0] \<and>
   fst (rebalance quiet lost_node_example) = Some NoNodeException \<and>
   partitions (snd (rebalance quiet lost_node_example)) = [example_partitions 4 ! 0]"
  by code_simp

lemma add_partitions_loop_raise:
  assumes "fst (add_partitions_loop s ps) = Some e"
  shows "\<exists>k<length ps.
     zookeeper (snd (add_partitions_loop s ps)) =
       zookeeper s @ map (\<lambda>p. (path_from_partition s p, (consumer_id s, True))) (take k ps) \<and>
     trace (snd (add_partitions_loop s ps)) =
       trace s @ map ZkCreate (map (path_from_partition s) (take (Suc k) ps))"
  using assms
proof (induction ps arbitrary: s)
  case Nil
  then show ?case by simp
next
  case (Cons p ps)
  let ?path = "path_from_partition s p"
  show ?case
  proof (cases "zk_exists (zookeeper s) (parent_path ?path) \<and> map_of (zookeeper s) ?path = None")
    case False
    have "0 < length (p # ps) \<and>
      zookeeper (snd (add_partitions_loop s (p # ps))) =
        zookeeper s @ map (\<lambda>p. (path_from_partition s p, (consumer_id s, True))) (take 0 (p # ps)) \<and>
      trace (snd (add_partitions_loop s (p # ps))) =
        trace s @ map ZkCreate (map (path_from_partition s) (take (Suc 0) (p # ps)))"
      by (simp add: zookeeper_create_raises [OF False])
    then show ?thesis by (rule exI)
  next
    case True
    let ?s1 = "s\<lparr>zookeeper := zookeeper s @ [(?path, (consumer_id s, True))],
                  trace := trace s @ [ZkCreate ?path]\<rparr>"
    have step: "add_partitions_loop s (p # ps) = add_partitions_loop ?s1 ps"
      using True by (simp add: zookeeper_create_ok)
    have pf: "path_from_partition ?s1 = path_from_partition s"
      by (rule path_from_partition_cong) (simp add: config_def)
    have "fst (add_partitions_loop ?s1 ps) = Some e"
      using Cons.prems unfolding step .
    from Cons.IH [OF this] obtain k where k: "k < length ps"
      "zookeeper (snd (add_partitions_loop ?s1 ps)) =
         zookeeper ?s1 @ map (\<lambda>p. (path_from_partition ?s1 p, (consumer_id ?s1, True))) (take k ps)"
      "trace (snd (add_partitions_loop ?s1 ps)) =
         trace ?s1 @ map ZkCreate (map (path_from_partition ?s1) (take (Suc k) ps))"
      by (elim exE conjE)
    have "Suc k < length (p # ps) \<and>
      zookeeper (snd (add_partitions_loop s (p # ps))) =
        zookeeper s @
        map (\<lambda>p. (path_from_partition s p, (consumer_id s, True))) (take (Suc k) (p # ps)) \<and>
      trace (snd (add_partitions_loop s (p # ps))) =
        trace s @ map ZkCreate (map (path_from_partition s) (take (Suc (Suc k)) (p # ps)))"
      using k unfolding step pf by simp
    then show ?thesis by (rule exI)
  qed
qed

text \<open>
  Claim C10. When \<^verbatim>\<open>_add_partitions\<close> raises \<^verbatim>\<open>NodeExistsError\<close>,
  \<^verbatim>\<open>self._partitions\<close> is what it was before the call, although the creations before
  the failing one have been made: for some \<open>k\<close> below the size of the batch, the
  ownership nodes of the first \<open>k\<close> partitions are in the store and the creation of
  the next one raised. The union into the owned set is made only when every creation
  has succeeded.
\<close>

theorem add_partitions_contention_keeps_owned:
  "(fst (add_partitions s ps) = Some NodeExistsError \<longrightarrow>
      partitions (snd (add_partitions s ps)) = partitions s \<and>
      (\<exists>k<length ps.
         zookeeper (snd (add_partitions s ps)) =
           zookeeper s @ map (\<lambda>p. (path_from_partition s p, (consumer_id s, True))) (take k ps) \<and>
         trace (snd (add_partitions s ps)) =
           trace s @ map ZkCreate (map (path_from_partition s) (take (Suc k) ps)))) \<and>
   (fst (add_partitions s ps) = None \<longrightarrow>
      set (partitions (snd (add_partitions s ps))) = set (partitions s) \<union> set ps)"
proof (intro conjI impI)
  assume e: "fst (add_partitions s ps) = Some NodeExistsError"
  then show "partitions (snd (add_partitions s ps)) = partitions s"
    using add_partitions_fields [of s ps] by simp
  from e have "fst (add_partitions_loop s ps) = Some NodeExistsError"
    using add_partitions_loop_rel [of s ps] by simp
  from add_partitions_loop_raise [OF this]
  show "\<exists>k<length ps.
         zookeeper (snd (add_partitions s ps)) =
           zookeeper s @ map (\<lambda>p. (path_from_partition s p, (consumer_id s, True))) (take k ps) \<and>
         trace (snd (add_partitions s ps)) =
           trace s @ map ZkCreate (map (path_from_partition s) (take (Suc k) ps))"
    using add_partitions_loop_rel [of s ps] by simp
next
  assume "fst (add_partitions s ps) = None"
  then show "set (partitions (snd (add_partitions s ps))) = set (partitions s) \<union> set ps"
    using add_partitions_fields [of s ps] by (auto simp: set_union_def set_diff_def)
qed

theorem add_partitions_contention_keeps_owned_witness:
  "fst (add_partitions contention_example (drop 2 (example_partitions 4))) =
     Some NodeExistsError \<and>
   partitions contention_example = [] \<and>
   partitions (snd (add_partitions contention_example (drop 2 (example_partitions 4)))) = [] \<and>
   map_of (zookeeper contention_example) ''/consumers/g/owners/t/0-2'' = None \<and>
   map_of (zookeeper (snd (add_partitions contention_example (drop 2 (example_partitions 4)))))
     ''/consumers/g/owners/t/0-2'' = Some (''b'', True)"
proof -
  let ?ps = "drop 2 (example_partitions 4)"
  have e: "fst (add_partitions contention_example ?ps) = Some NodeExistsError"
    by code_simp
  have o: "partitions contention_example = []"
    by (simp add: contention_example_def newcomer_def new_consumer_def)
  have z: "map_of (zookeeper contention_example) ''/consumers/g/owners/t/0-2'' = None"
    "map_of (zookeeper (snd (add_partitions contention_example ?ps)))
       ''/consumers/g/owners/t/0-2'' = Some (''b'', True)"
    by code_simp+
  from add_partitions_contention_keeps_owned [of contention_example ?ps] e
  have "partitions (snd (add_partitions contention_example ?ps)) = partitions contention_example"
    by simp
  with e o z show ?thesis by simp
qed

section \<open>Properties of the rebalance\<close>

lemma index_None: "x \<notin> set xs \<Longrightarrow> index xs x = None"
  by (induction xs) auto

lemma rebalance_unregistered:
  assumes "get_participants s = Inr participants" and "consumer_id s \<notin> set participants"
  shows "rebalance w s = (Some ValueError, s)"
  using assms by (simp add: rebalance_def decide_partitions_def index_None)

text \<open>
  Claim C3 does not hold of the code. \<^verbatim>\<open>_rebalance\<close> calls the decider on every
  list of participants it reads. The consumer \<open>b\<close> that finds \<open>a\<close> registered on a
  topic of one partition is not registered by \<^verbatim>\<open>_add_self\<close>, which returns without
  an error; the rebalance that \<^verbatim>\<open>__init__\<close> runs next reads the participants
  \<open>[a]\<close>, and the decider's \<^verbatim>\<open>participants.index(self._id)\<close> raises
  \<^verbatim>\<open>ValueError\<close>. The same happens on an empty list of participants; the division
  by its length is never reached.
\<close>

theorem rebalance_over_subscribed_raises:
  "add_self (newcomer 1 (group_store [''a''])) = (None, newcomer 1 (group_store [''a''])) \<and>
   get_participants (newcomer 1 (group_store [''a''])) = Inr [''a''] \<and>
   decide_partitions ''b'' (example_partitions 1) [''a''] = Inl ValueError \<and>
   rebalance w (newcomer 1 (group_store [''a''])) =
     (Some ValueError, newcomer 1 (group_store [''a''])) \<and>
   add_self (newcomer 0 (group_store [])) = (None, newcomer 0 (group_store [])) \<and>
   get_participants (newcomer 0 (group_store [])) = Inr [] \<and>
   decide_partitions ''b'' (example_partitions 0) [] = Inl ValueError \<and>
   rebalance w (newcomer 0 (group_store [])) = (Some ValueError, newcomer 0 (group_store []))"
proof -
  let ?s = "newcomer 1 (group_store [''a''])" and ?e = "newcomer 0 (group_store [])"
  have g: "get_participants ?s = Inr [''a'']" "get_participants ?e = Inr []"
    by code_simp+
  have i: "consumer_id ?s = ''b''" "consumer_id ?e = ''b''"
    by (simp_all add: newcomer_def new_consumer_def)
  have a: "add_self ?s = (None, ?s)" "add_self ?e = (None, ?e)"
    using g by (simp_all add: add_self_def newcomer_def new_consumer_def example_partitions_def)
  have d: "decide_partitions ''b'' (example_partitions 1) [''a''] = Inl ValueError"
    "decide_partitions ''b'' (example_partitions 0) [] = Inl ValueError"
    by (simp_all add: decide_partitions_def)
  have "rebalance w ?s = (Some ValueError, ?s)"
    by (rule rebalance_unregistered [OF g(1)]) (simp only: i, simp)
  moreover have "rebalance w ?e = (Some ValueError, ?e)"
    by (rule rebalance_unregistered [OF g(2)]) (simp only: i, simp)
  ultimately show ?thesis using g a d by simp
qed

lemma set_diff_empty: "set a \<subseteq> set b \<Longrightarrow> set_diff a b = []"
  by (auto simp: set_diff_def filter_empty_conv)

lemma remove_partitions_nothing: "remove_partitions s [] = (None, s)"
  by (simp add: remove_partitions_def set_diff_def)

lemma add_partitions_nothing: "add_partitions s [] = (None, s)"
  by (simp add: add_partitions_def set_diff_def set_union_def)

lemma rebalance_attempt_nothing:
  assumes "set new_partitions = set (partitions s)"
  shows "rebalance_attempt w 0 new_partitions s = ((Break, new_partitions), s)"
  using assms
  by (simp add: rebalance_attempt_def set_diff_empty remove_partitions_nothing
      add_partitions_nothing)

text \<open>
  Claim C5, amended. A rebalance in which the newly decided set equals the owned set
  writes nothing to ZooKeeper and leaves the owned set as it is, but it does replace
  the inner consumer: \<^verbatim>\<open>_setup_internal_consumer\<close> runs at the end of every
  rebalance that no exception leaves, stops the inner consumer if there is one and
  constructs a new one on the same partitions.
\<close>

theorem rebalance_same_set_replaces_consumer:
  assumes "get_participants s = Inr participants"
    and "decide_partitions (consumer_id s) (topic_partitions s) participants = Inr new_partitions"
    and "set new_partitions = set (partitions s)"
  shows "rebalance w s =
     (None, s\<lparr>consumer := Some (partitions s),
              trace := trace s @ (if consumer s = None then [] else [ConsumerStop]) @
                [ConsumerNew (partitions s)]\<rparr>)"
proof -
  have "rebalance_loop w [0..<rebalance_retries s] new_partitions s = (None, s)"
  proof (cases "rebalance_retries s")
    case 0
    then show ?thesis by simp
  next
    case (Suc n)
    then have "[0..<rebalance_retries s] = 0 # [1..<Suc n]"
      by (simp add: upt_conv_Cons)
    then show ?thesis
      using rebalance_attempt_nothing [OF assms(3), of w] by simp
  qed
  then show ?thesis
    using assms(1,2) by (simp add: rebalance_def setup_internal_consumer_def)
qed

theorem rebalance_same_set_replaces_consumer_witness:
  "get_participants settled_example = Inr [''a'', ''b''] \<and>
   decide_partitions (consumer_id settled_example) (topic_partitions settled_example)
     [''a'', ''b''] = Inr (drop 2 (example_partitions 4)) \<and>
   partitions settled_example = drop 2 (example_partitions 4) \<and>
   consumer settled_example = Some (drop 2 (example_partitions 4)) \<and>
   fst (rebalance quiet settled_example) = None \<and>
   zookeeper (snd (rebalance quiet settled_example)) = zookeeper settled_example \<and>
   partitions (snd (rebalance quiet settled_example)) = partitions settled_example \<and>
   trace (snd (rebalance quiet settled_example)) =
     trace settled_example @ [ConsumerStop, ConsumerNew (drop 2 (example_partitions 4))]"
proof -
  have g: "get_participants settled_example = Inr [''a'', ''b'']"
    by code_simp
  have d: "decide_partitions (consumer_id settled_example) (topic_partitions settled_example)
     [''a'', ''b''] = Inr (drop 2 (example_partitions 4))"
    by code_simp
  have p: "partitions settled_example = drop 2 (example_partitions 4)"
    by code_simp
  have c: "consumer settled_example = Some (drop 2 (example_partitions 4))"
    by code_simp
  have "set (drop 2 (example_partitions 4)) = set (partitions settled_example)"
    by (simp add: p)
  from rebalance_same_set_replaces_consumer [OF g d this, of quiet] g d p c
  show ?thesis by simp
qed

theorem rebalance_same_set_counterexample:
  "decide_partitions (consumer_id settled_example) (topic_partitions settled_example)
     [''a'', ''b''] = Inr (partitions settled_example) \<and>
   get_participants settled_example = Inr [''a'', ''b''] \<and>
   consumer settled_example = Some (partitions settled_example) \<and>
   fst (rebalance quiet settled_example) = None \<and>
   trace (snd (rebalance quiet settled_example)) =
     trace settled_example @ [ConsumerStop, ConsumerNew (partitions settled_example)]"
  by code_simp

lemma set_diff_twice: "set_diff b (set_diff a (set_diff a b)) = set_diff b a"
  unfolding set_diff_def by (rule filter_cong) auto

lemma sleeps_append: "sleeps (xs @ ys) = sleeps xs @ sleeps ys"
  by (induction xs rule: sleeps.induct) simp_all

lemma announced_append: "announced (xs @ ys) = announced xs @ announced ys"
  by (induction xs rule: announced.induct) simp_all

lemma sleeps_deletes: "sleeps (map ZkDelete ds) = []"
  by (induction ds) simp_all

lemma sleeps_creates: "sleeps (map ZkCreate cs) = []"
  by (induction cs) simp_all

lemma announced_deletes: "announced (map ZkDelete ds) = []"
  by (induction ds) simp_all

lemma announced_creates: "announced (map ZkCreate cs) = []"
  by (induction cs) simp_all

text \<open>The first pass through the loop body, by the outcome of its two steps.\<close>

lemma rebalance_attempt_release_raises:
  assumes "remove_partitions s (set_diff (partitions s) new_partitions) = (Some e, s2)"
  shows "rebalance_attempt w 0 new_partitions s = ((Raise e, new_partitions), s2)"
  using assms by (simp add: rebalance_attempt_def)

lemma rebalance_attempt_acquire:
  assumes "remove_partitions s (set_diff (partitions s) new_partitions) = (None, s2)"
    and "add_partitions s2 (set_diff new_partitions (partitions s2)) = (r3, s3)"
  shows "\<exists>out. rebalance_attempt w 0 new_partitions s = ((out, new_partitions), s3) \<and>
     (out = Break \<longleftrightarrow> r3 = None) \<and> (out = Continue \<longleftrightarrow> r3 = Some NodeExistsError)"
  using assms by (cases r3) (simp_all add: rebalance_attempt_def)

lemma rebalance_attempt_first_fields:
  "config (snd (rebalance_attempt w 0 new_partitions s)) = config s \<and>
   consumer (snd (rebalance_attempt w 0 new_partitions s)) = consumer s \<and>
   snd (fst (rebalance_attempt w 0 new_partitions s)) = new_partitions"
proof -
  let ?rel = "set_diff (partitions s) new_partitions"
  obtain r2 s2 where r: "remove_partitions s ?rel = (r2, s2)"
    by (cases "remove_partitions s ?rel")
  have f2: "config s2 = config s" "consumer s2 = consumer s"
    using remove_partitions_fields [of s ?rel] unfolding r by simp_all
  show ?thesis
  proof (cases r2)
    case (Some e)
    from rebalance_attempt_release_raises [OF r [unfolded Some], of w] f2
    show ?thesis by simp
  next
    case None
    let ?acq = "set_diff new_partitions (partitions s2)"
    obtain r3 s3 where a: "add_partitions s2 ?acq = (r3, s3)"
      by (cases "add_partitions s2 ?acq")
    have f3: "config s3 = config s2" "consumer s3 = consumer s2"
      using add_partitions_fields [of s2 ?acq] unfolding a by simp_all
    from rebalance_attempt_acquire [OF r [unfolded None] a, of w] obtain out where
      "rebalance_attempt w 0 new_partitions s = ((out, new_partitions), s3)"
      by (elim exE conjE)
    then show ?thesis using f2 f3 by simp
  qed
qed

lemma rebalance_attempt_first:
  "\<exists>kd ka.
     trace (snd (rebalance_attempt w 0 new_partitions s)) =
       trace s @
       map ZkDelete (take kd (map (path_from_partition s) (set_diff (partitions s) new_partitions))) @
       map ZkCreate (take ka (map (path_from_partition s) (set_diff new_partitions (partitions s)))) \<and>
     (0 < ka \<longrightarrow> length (set_diff (partitions s) new_partitions) \<le> kd)"
proof -
  let ?rel = "set_diff (partitions s) new_partitions"
  let ?acq = "set_diff new_partitions (partitions s)"
  let ?dels = "map (path_from_partition s) ?rel"
  let ?adds = "map (path_from_partition s) ?acq"
  obtain r2 s2 where r: "remove_partitions s ?rel = (r2, s2)"
    by (cases "remove_partitions s ?rel")
  from remove_partitions_loop_trace [of s ?rel] obtain kd where
    "trace (snd (remove_partitions_loop s ?rel)) = trace s @ map ZkDelete (take kd ?dels)"
    "fst (remove_partitions_loop s ?rel) = None \<longrightarrow> length ?rel \<le> kd"
    by (elim exE conjE)
  then have kd: "trace s2 = trace s @ map ZkDelete (take kd ?dels)"
    "r2 = None \<longrightarrow> length ?rel \<le> kd"
    using remove_partitions_loop_rel [of s ?rel] unfolding r by simp_all
  have f2: "config s2 = config s"
    "partitions s2 = (if r2 = None then set_diff (partitions s) ?rel else partitions s)"
    using remove_partitions_fields [of s ?rel] unfolding r by simp_all
  show ?thesis
  proof (cases r2)
    case (Some e)
    from rebalance_attempt_release_raises [OF r [unfolded Some], of w]
    have "trace (snd (rebalance_attempt w 0 new_partitions s)) =
        trace s @ map ZkDelete (take kd ?dels) @ map ZkCreate (take 0 ?adds) \<and>
        (0 < (0::nat) \<longrightarrow> length ?rel \<le> kd)"
      using kd(1) by simp
    then show ?thesis by - (rule exI [of _ kd], rule exI [of _ 0], assumption)
  next
    case None
    have acq: "set_diff new_partitions (partitions s2) = ?acq"
      using f2(2) None by (simp add: set_diff_twice)
    have pf: "path_from_partition s2 = path_from_partition s"
      using f2(1) by (rule path_from_partition_cong)
    obtain r3 s3 where a: "add_partitions s2 ?acq = (r3, s3)"
      by (cases "add_partitions s2 ?acq")
    from add_partitions_loop_trace [of s2 ?acq] obtain ka where
      "trace (snd (add_partitions_loop s2 ?acq)) =
         trace s2 @ map ZkCreate (take ka (map (path_from_partition s2) ?acq))"
      by (elim exE)
    then have ka: "trace s3 = trace s2 @ map ZkCreate (take ka ?adds)"
      using add_partitions_loop_rel [of s2 ?acq] unfolding a pf by simp
    from rebalance_attempt_acquire [OF r [unfolded None] a [folded acq], of w] obtain out where
      "rebalance_attempt w 0 new_partitions s = ((out, new_partitions), s3)"
      by (elim exE conjE)
    then have "trace (snd (rebalance_attempt w 0 new_partitions s)) =
        trace s @ map ZkDelete (take kd ?dels) @ map ZkCreate (take ka ?adds) \<and>
        (0 < ka \<longrightarrow> length ?rel \<le> kd)"
      using ka kd None by simp
    then show ?thesis by - (rule exI [of _ kd], rule exI [of _ ka], assumption)
  qed
qed

text \<open>A later pass: the message, the sleep, the participants and the decision anew.\<close>

lemma rebalance_attempt_retry:
  assumes "0 < i"
  shows "rebalance_attempt w i new_partitions s =
     (let s2 = sleep w (i ^ 2) (s\<lparr>trace := trace s @ [LogRetrying ((i + 1) ^ 2)]\<rparr>)
      in case get_participants s2 of
           Inl e \<Rightarrow> ((Raise e, new_partitions), s2)
         | Inr participants \<Rightarrow>
             (case decide_partitions (consumer_id s) (topic_partitions s) participants of
                Inl e \<Rightarrow> ((Raise e, new_partitions), s2)
              | Inr new1 \<Rightarrow> rebalance_attempt w 0 new1 s2))"
proof -
  let ?s2 = "sleep w (i ^ 2) (s\<lparr>trace := trace s @ [LogRetrying ((i + 1) ^ 2)]\<rparr>)"
  have c: "consumer_id (sleep w n t) = consumer_id t"
    "topic_partitions (sleep w n t) = topic_partitions t" for n t
    by (simp_all add: sleep_def)
  show ?thesis
  proof (cases "get_participants ?s2")
    case (Inl e)
    then have "retry w i s = (Inl e, ?s2)" by (simp add: retry_def Let_def)
    then show ?thesis using assms Inl by (simp add: rebalance_attempt_def Let_def)
  next
    case (Inr participants)
    then have r: "retry w i s =
        (decide_partitions (consumer_id s) (topic_partitions s) participants, ?s2)"
      by (simp add: retry_def Let_def c)
    show ?thesis
    proof (cases "decide_partitions (consumer_id s) (topic_partitions s) participants")
      case (Inl e)
      then show ?thesis using assms Inr r by (simp add: rebalance_attempt_def Let_def)
    next
      case new1: (Inr new1)
      have "rebalance_attempt w i new_partitions s = rebalance_attempt w 0 new1 ?s2"
        using assms r new1 by (simp add: rebalance_attempt_def)
      then show ?thesis using Inr new1 by (simp add: Let_def)
    qed
  qed
qed

lemma rebalance_attempt_trace:
  "\<exists>kd ka.
     trace (snd (rebalance_attempt w i new_partitions s)) =
       trace s @ (if 0 < i then [LogRetrying ((i + 1) ^ 2), Sleep (i ^ 2)] else []) @
       map ZkDelete (take kd (map (path_from_partition s)
         (set_diff (partitions s) (snd (fst (rebalance_attempt w i new_partitions s)))))) @
       map ZkCreate (take ka (map (path_from_partition s)
         (set_diff (snd (fst (rebalance_attempt w i new_partitions s))) (partitions s)))) \<and>
     (0 < ka \<longrightarrow>
        length (set_diff (partitions s) (snd (fst (rebalance_attempt w i new_partitions s)))) \<le> kd)"
proof (cases "0 < i")
  case False
  then have i: "i = 0" by simp
  have n: "snd (fst (rebalance_attempt w 0 new_partitions s)) = new_partitions"
    using rebalance_attempt_first_fields [of w new_partitions s] by simp
  show ?thesis
    using rebalance_attempt_first [of w new_partitions s]
    unfolding i n by simp
next
  case True
  let ?pre = "[LogRetrying ((i + 1) ^ 2), Sleep (i ^ 2)]"
  let ?s2 = "sleep w (i ^ 2) (s\<lparr>trace := trace s @ [LogRetrying ((i + 1) ^ 2)]\<rparr>)"
  have t2: "trace ?s2 = trace s @ ?pre"
    and p2: "partitions ?s2 = partitions s"
    by (simp_all add: sleep_def)
  have pf: "path_from_partition ?s2 = path_from_partition s"
    by (rule path_from_partition_cong) (simp add: sleep_def config_def)
  have stop: ?thesis
    if "rebalance_attempt w i new_partitions s = ((Raise e, new_partitions), ?s2)" for e
  proof -
    have "trace (snd (rebalance_attempt w i new_partitions s)) =
       trace s @ ?pre @
       map ZkDelete (take 0 (map (path_from_partition s)
         (set_diff (partitions s) (snd (fst (rebalance_attempt w i new_partitions s)))))) @
       map ZkCreate (take 0 (map (path_from_partition s)
         (set_diff (snd (fst (rebalance_attempt w i new_partitions s))) (partitions s)))) \<and>
       (0 < (0::nat) \<longrightarrow>
         length (set_diff (partitions s) (snd (fst (rebalance_attempt w i new_partitions s)))) \<le> 0)"
      unfolding that using t2 by simp
    then show ?thesis
      using True by - (rule exI [of _ 0], rule exI [of _ 0], simp)
  qed
  show ?thesis
  proof (cases "get_participants ?s2")
    case (Inl e)
    then have "rebalance_attempt w i new_partitions s = ((Raise e, new_partitions), ?s2)"
      using rebalance_attempt_retry [OF True, of w new_partitions s] by (simp add: Let_def)
    then show ?thesis by (rule stop)
  next
    case (Inr participants)
    show ?thesis
    proof (cases "decide_partitions (consumer_id s) (topic_partitions s) participants")
      case (Inl e)
      then have "rebalance_attempt w i new_partitions s = ((Raise e, new_partitions), ?s2)"
        using rebalance_attempt_retry [OF True, of w new_partitions s] Inr by (simp add: Let_def)
      then show ?thesis by (rule stop)
    next
      case new1: (Inr new1)
      have eq: "rebalance_attempt w i new_partitions s = rebalance_attempt w 0 new1 ?s2"
        using rebalance_attempt_retry [OF True, of w new_partitions s] Inr new1
        by (simp add: Let_def)
      have n: "snd (fst (rebalance_attempt w 0 new1 ?s2)) = new1"
        using rebalance_attempt_first_fields [of w new1 ?s2] by simp
      from rebalance_attempt_first [of w new1 ?s2] obtain kd ka where
        "trace (snd (rebalance_attempt w 0 new1 ?s2)) =
           trace ?s2 @
           map ZkDelete (take kd (map (path_from_partition ?s2) (set_diff (partitions ?s2) new1))) @
           map ZkCreate (take ka (map (path_from_partition ?s2) (set_diff new1 (partitions ?s2))))"
        "0 < ka \<longrightarrow> length (set_diff (partitions ?s2) new1) \<le> kd"
        by (elim exE conjE)
      then have "trace (snd (rebalance_attempt w i new_partitions s)) =
         trace s @ ?pre @
         map ZkDelete (take kd (map (path_from_partition s)
           (set_diff (partitions s) (snd (fst (rebalance_attempt w i new_partitions s)))))) @
         map ZkCreate (take ka (map (path_from_partition s)
           (set_diff (snd (fst (rebalance_attempt w i new_partitions s))) (partitions s)))) \<and>
         (0 < ka \<longrightarrow>
           length (set_diff (partitions s) (snd (fst (rebalance_attempt w i new_partitions s)))) \<le> kd)"
        unfolding eq n pf p2 t2 by simp
      then show ?thesis
        using True by - (rule exI [of _ kd], rule exI [of _ ka], simp)
    qed
  qed
qed

text \<open>
  Claim C6. In every pass through the loop body of \<^verbatim>\<open>_rebalance\<close>, the events are:
  for \<open>i > 0\<close> the retry message and the sleep; then deletions of ownership nodes,
  along the partitions owned and not in the new set; then creations of ownership
  nodes, along the partitions in the new set and not owned. A creation is made only
  after the deletion for every partition to release.
\<close>

theorem rebalance_attempt_releases_first:
  "\<exists>kd ka.
     trace (snd (rebalance_attempt w i new_partitions s)) =
       trace s @ (if 0 < i then [LogRetrying ((i + 1) ^ 2), Sleep (i ^ 2)] else []) @
       map ZkDelete (take kd (map (path_from_partition s)
         (set_diff (partitions s) (snd (fst (rebalance_attempt w i new_partitions s)))))) @
       map ZkCreate (take ka (map (path_from_partition s)
         (set_diff (snd (fst (rebalance_attempt w i new_partitions s))) (partitions s)))) \<and>
     (0 < ka \<longrightarrow>
        length (set_diff (partitions s) (snd (fst (rebalance_attempt w i new_partitions s)))) \<le> kd)"
  by (rule rebalance_attempt_trace)

theorem rebalance_attempt_releases_first_witness:
  "(\<exists>kd ka.
     trace (snd (rebalance_attempt quiet 1 [] owner_example)) =
       trace owner_example @ [LogRetrying 4, Sleep 1] @
       map ZkDelete (take kd [''/consumers/g/owners/t/0-0'']) @
       map ZkCreate (take ka [''/consumers/g/owners/t/0-2'', ''/consumers/g/owners/t/0-3'']) \<and>
     (0 < ka \<longrightarrow> 1 \<le> kd)) \<and>
   trace owner_example = [] \<and>
   trace (snd (rebalance_attempt quiet 1 [] owner_example)) =
     [LogRetrying 4, Sleep 1, ZkDelete ''/consumers/g/owners/t/0-0'',
      ZkCreate ''/consumers/g/owners/t/0-2'', ZkCreate ''/consumers/g/owners/t/0-3'']"
proof -
  let ?new = "snd (fst (rebalance_attempt quiet 1 [] owner_example))"
  have r: "map (path_from_partition owner_example) (set_diff (partitions owner_example) ?new) =
      [''/consumers/g/owners/t/0-0'']"
    by code_simp
  have a: "map (path_from_partition owner_example) (set_diff ?new (partitions owner_example)) =
      [''/consumers/g/owners/t/0-2'', ''/consumers/g/owners/t/0-3'']"
    by code_simp
  have l: "length (set_diff (partitions owner_example) ?new) = 1"
    by code_simp
  have t: "trace owner_example = []"
    by code_simp
  have c: "trace (snd (rebalance_attempt quiet 1 [] owner_example)) =
     [LogRetrying 4, Sleep 1, ZkDelete ''/consumers/g/owners/t/0-0'',
      ZkCreate ''/consumers/g/owners/t/0-2'', ZkCreate ''/consumers/g/owners/t/0-3'']"
    by code_simp
  have "\<exists>kd ka.
     trace (snd (rebalance_attempt quiet 1 [] owner_example)) =
       trace owner_example @ [LogRetrying 4, Sleep 1] @
       map ZkDelete (take kd [''/consumers/g/owners/t/0-0'']) @
       map ZkCreate (take ka [''/consumers/g/owners/t/0-2'', ''/consumers/g/owners/t/0-3'']) \<and>
     (0 < ka \<longrightarrow> 1 \<le> kd)"
    using rebalance_attempt_releases_first [of quiet 1 "[]" owner_example]
    unfolding r a l by (simp add: power2_eq_square eval_nat_numeral)
  then show ?thesis using t c by simp
qed

lemma rebalance_attempt_sleeps:
  "sleeps (trace (snd (rebalance_attempt w i new_partitions s))) =
     sleeps (trace s) @ (if 0 < i then [i ^ 2] else []) \<and>
   announced (trace (snd (rebalance_attempt w i new_partitions s))) =
     announced (trace s) @ (if 0 < i then [(i + 1) ^ 2] else [])"
proof -
  from rebalance_attempt_trace [of w i new_partitions s] obtain ds cs where
    "trace (snd (rebalance_attempt w i new_partitions s)) =
       trace s @ (if 0 < i then [LogRetrying ((i + 1) ^ 2), Sleep (i ^ 2)] else []) @
       map ZkDelete ds @ map ZkCreate cs"
    by (elim exE conjE) (rule that)
  then show ?thesis
    by (simp add: sleeps_append announced_append sleeps_deletes sleeps_creates
        announced_deletes announced_creates)
qed

lemma rebalance_loop_sleeps:
  "\<exists>k\<le>length is.
     sleeps (trace (snd (rebalance_loop w is new_partitions s))) =
       sleeps (trace s) @ map (\<lambda>i. i ^ 2) (filter (\<lambda>i. 0 < i) (take k is)) \<and>
     announced (trace (snd (rebalance_loop w is new_partitions s))) =
       announced (trace s) @ map (\<lambda>i. (i + 1) ^ 2) (filter (\<lambda>i. 0 < i) (take k is))"
proof (induction "is" arbitrary: new_partitions s)
  case Nil
  show ?case by simp
next
  case (Cons i "is")
  obtain out new1 s1 where a: "rebalance_attempt w i new_partitions s = ((out, new1), s1)"
    by (cases "rebalance_attempt w i new_partitions s") auto
  have s1: "sleeps (trace s1) = sleeps (trace s) @ (if 0 < i then [i ^ 2] else [])"
    "announced (trace s1) = announced (trace s) @ (if 0 < i then [(i + 1) ^ 2] else [])"
    using rebalance_attempt_sleeps [of w i new_partitions s] unfolding a by simp_all
  let ?P = "\<lambda>k r. k \<le> length (i # is) \<and>
     sleeps (trace (snd r)) =
       sleeps (trace s) @ map (\<lambda>i. i ^ 2) (filter (\<lambda>i. 0 < i) (take k (i # is))) \<and>
     announced (trace (snd r)) =
       announced (trace s) @ map (\<lambda>i. (i + 1) ^ 2) (filter (\<lambda>i. 0 < i) (take k (i # is)))"
  show ?case
  proof (cases "out = Continue")
    case False
    then have "snd (rebalance_loop w (i # is) new_partitions s) = s1"
      using a by (cases out) simp_all
    then have "?P 1 (rebalance_loop w (i # is) new_partitions s)"
      using s1 by simp
    then show ?thesis by (rule exI)
  next
    case True
    then have step: "rebalance_loop w (i # is) new_partitions s = rebalance_loop w is new1 s1"
      using a by simp
    from Cons.IH [of new1 s1] obtain k where k: "k \<le> length is"
      "sleeps (trace (snd (rebalance_loop w is new1 s1))) =
         sleeps (trace s1) @ map (\<lambda>i. i ^ 2) (filter (\<lambda>i. 0 < i) (take k is))"
      "announced (trace (snd (rebalance_loop w is new1 s1))) =
         announced (trace s1) @ map (\<lambda>i. (i + 1) ^ 2) (filter (\<lambda>i. 0 < i) (take k is))"
      by (elim exE conjE)
    have "?P (Suc k) (rebalance_loop w (i # is) new_partitions s)"
      using k s1 unfolding step by simp
    then show ?thesis by (rule exI)
  qed
qed

lemma filter_positive_upt: "filter (\<lambda>i. 0 < i) [0..<k] = [1..<k]"
  by (induction k) auto

lemma setup_internal_consumer_sleeps:
  "sleeps (trace (setup_internal_consumer s)) = sleeps (trace s) \<and>
   announced (trace (setup_internal_consumer s)) = announced (trace s)"
  by (simp add: setup_internal_consumer_def Let_def sleeps_append announced_append)

lemma rebalance_sleeps:
  "\<exists>k\<le>rebalance_retries s.
     sleeps (trace (snd (rebalance w s))) = sleeps (trace s) @ map (\<lambda>i. i ^ 2) [1..<k] \<and>
     announced (trace (snd (rebalance w s))) =
       announced (trace s) @ map (\<lambda>i. (i + 1) ^ 2) [1..<k]"
proof -
  let ?P = "\<lambda>k. k \<le> rebalance_retries s \<and>
     sleeps (trace (snd (rebalance w s))) = sleeps (trace s) @ map (\<lambda>i. i ^ 2) [1..<k] \<and>
     announced (trace (snd (rebalance w s))) =
       announced (trace s) @ map (\<lambda>i. (i + 1) ^ 2) [1..<k]"
  let ?d = "\<lambda>participants. decide_partitions (consumer_id s) (topic_partitions s) participants"
  consider (g) e where "get_participants s = Inl e"
    | (d) participants e where "get_participants s = Inr participants" "?d participants = Inl e"
    | (l) participants new_partitions where
        "get_participants s = Inr participants" "?d participants = Inr new_partitions"
    by (cases "get_participants s"; cases "?d (projr (get_participants s))") auto
  then show ?thesis
  proof cases
    case g
    then have "?P 0" by (simp add: rebalance_def)
    then show ?thesis by (rule exI)
  next
    case d
    then have "?P 0" by (simp add: rebalance_def)
    then show ?thesis by (rule exI)
  next
    case l
    let ?loop = "rebalance_loop w [0..<rebalance_retries s] new_partitions s"
    from rebalance_loop_sleeps [of "[0..<rebalance_retries s]" w new_partitions s]
    obtain k where k: "k \<le> rebalance_retries s"
      "sleeps (trace (snd ?loop)) =
         sleeps (trace s) @
         map (\<lambda>i. i ^ 2) (filter (\<lambda>i. 0 < i) (take k [0..<rebalance_retries s]))"
      "announced (trace (snd ?loop)) =
         announced (trace s) @
         map (\<lambda>i. (i + 1) ^ 2) (filter (\<lambda>i. 0 < i) (take k [0..<rebalance_retries s]))"
      by (elim exE conjE) simp
    have u: "filter (\<lambda>i. 0 < i) (take k [0..<rebalance_retries s]) = [1..<k]"
      using k(1) by (simp add: take_upt filter_positive_upt del: upt_Suc)
    obtain r s1 where lp: "?loop = (r, s1)" by (cases ?loop)
    have "snd (rebalance w s) = (if r = None then setup_internal_consumer s1 else s1)"
      using l lp by (cases r) (simp_all add: rebalance_def)
    then have "sleeps (trace (snd (rebalance w s))) = sleeps (trace s1)"
      "announced (trace (snd (rebalance w s))) = announced (trace s1)"
      using setup_internal_consumer_sleeps [of s1] by simp_all
    then have "?P k" using k lp unfolding u by simp
    then show ?thesis by (rule exI)
  qed
qed

text \<open>
  Claim C7. \<^verbatim>\<open>__init__\<close> sets \<^verbatim>\<open>_rebalance_retries\<close> to 5. A rebalance makes
  some number \<open>k\<close> of passes through its loop, at most \<^verbatim>\<open>_rebalance_retries\<close>; the
  seconds it sleeps are \<open>1, 4, \<dots>, (k - 1)\<^sup>2\<close>, one sleep of \<open>i\<^sup>2\<close> before pass
  \<open>i \<ge> 1\<close> and none before pass 0, while the seconds announced by the retry message
  are \<open>4, 9, \<dots>, k\<^sup>2\<close>, that is \<open>(i + 1)\<^sup>2\<close>. A pass \<open>i \<ge> 1\<close> is: the
  message, the sleep, the participants read from the store as it is after the sleep,
  the decision on these participants, and then the release and the acquisition of
  pass 0 on the new decision.
\<close>

theorem rebalance_retry_schedule:
  "rebalance_retries (new_consumer name parts grp ident z) = 5 \<and>
   (\<exists>k\<le>rebalance_retries s.
     sleeps (trace (snd (rebalance w s))) = sleeps (trace s) @ map (\<lambda>i. i ^ 2) [1..<k] \<and>
     announced (trace (snd (rebalance w s))) =
       announced (trace s) @ map (\<lambda>i. (i + 1) ^ 2) [1..<k]) \<and>
   sleeps (trace (snd (rebalance_attempt w 0 new_partitions s))) = sleeps (trace s) \<and>
   (0 < i \<longrightarrow>
      rebalance_attempt w i new_partitions s =
        (let s2 = sleep w (i ^ 2) (s\<lparr>trace := trace s @ [LogRetrying ((i + 1) ^ 2)]\<rparr>)
         in case get_participants s2 of
              Inl e \<Rightarrow> ((Raise e, new_partitions), s2)
            | Inr participants \<Rightarrow>
                (case decide_partitions (consumer_id s) (topic_partitions s) participants of
                   Inl e \<Rightarrow> ((Raise e, new_partitions), s2)
                 | Inr new1 \<Rightarrow> rebalance_attempt w 0 new1 s2)))"
proof (intro conjI impI)
  show "rebalance_retries (new_consumer name parts grp ident z) = 5"
    by (simp add: new_consumer_def)
  show "\<exists>k\<le>rebalance_retries s.
     sleeps (trace (snd (rebalance w s))) = sleeps (trace s) @ map (\<lambda>i. i ^ 2) [1..<k] \<and>
     announced (trace (snd (rebalance w s))) =
       announced (trace s) @ map (\<lambda>i. (i + 1) ^ 2) [1..<k]"
    by (rule rebalance_sleeps)
  show "sleeps (trace (snd (rebalance_attempt w 0 new_partitions s))) = sleeps (trace s)"
    using rebalance_attempt_sleeps [of w 0 new_partitions s] by simp
next
  assume "0 < i"
  then show "rebalance_attempt w i new_partitions s =
        (let s2 = sleep w (i ^ 2) (s\<lparr>trace := trace s @ [LogRetrying ((i + 1) ^ 2)]\<rparr>)
         in case get_participants s2 of
              Inl e \<Rightarrow> ((Raise e, new_partitions), s2)
            | Inr participants \<Rightarrow>
                (case decide_partitions (consumer_id s) (topic_partitions s) participants of
                   Inl e \<Rightarrow> ((Raise e, new_partitions), s2)
                 | Inr new1 \<Rightarrow> rebalance_attempt w 0 new1 s2))"
    by (rule rebalance_attempt_retry)
qed

theorem rebalance_retry_schedule_witness:
  "rebalance_retries contention_example = 5 \<and>
   trace contention_example = [] \<and>
   (\<exists>k\<le>5.
     sleeps (trace (snd (rebalance quiet contention_example))) = map (\<lambda>i. i ^ 2) [1..<k] \<and>
     announced (trace (snd (rebalance quiet contention_example))) =
       map (\<lambda>i. (i + 1) ^ 2) [1..<k]) \<and>
   sleeps (trace (snd (rebalance quiet contention_example))) = [1, 4, 9, 16] \<and>
   announced (trace (snd (rebalance quiet contention_example))) = [4, 9, 16, 25] \<and>
   get_participants (sleep quiet 1 (contention_example\<lparr>trace := [LogRetrying 4]\<rparr>)) =
     Inr [''a'', ''b''] \<and>
   decide_partitions ''b'' (example_partitions 4) [''a'', ''b''] =
     Inr (drop 2 (example_partitions 4)) \<and>
   rebalance_attempt quiet 1 [] contention_example =
     rebalance_attempt quiet 0 (drop 2 (example_partitions 4))
       (sleep quiet 1 (contention_example\<lparr>trace := [LogRetrying 4]\<rparr>))"
proof -
  let ?s2 = "sleep quiet 1 (contention_example\<lparr>trace := [LogRetrying 4]\<rparr>)"
  have f: "rebalance_retries contention_example = 5" "trace contention_example = []"
    "consumer_id contention_example = ''b''"
    "topic_partitions contention_example = example_partitions 4"
    by (simp_all add: contention_example_def newcomer_def new_consumer_def)
  have s: "sleeps (trace (snd (rebalance quiet contention_example))) = [1, 4, 9, 16]"
    by code_simp
  have a: "announced (trace (snd (rebalance quiet contention_example))) = [4, 9, 16, 25]"
    by code_simp
  have g: "get_participants ?s2 = Inr [''a'', ''b'']"
    by code_simp
  have d: "decide_partitions ''b'' (example_partitions 4) [''a'', ''b''] =
      Inr (drop 2 (example_partitions 4))"
    by code_simp
  note th = rebalance_retry_schedule [of _ _ _ _ _ contention_example quiet "[]" 1]
  have k: "\<exists>k\<le>5.
     sleeps (trace (snd (rebalance quiet contention_example))) = map (\<lambda>i. i ^ 2) [1..<k] \<and>
     announced (trace (snd (rebalance quiet contention_example))) =
       map (\<lambda>i. (i + 1) ^ 2) [1..<k]"
    using th [THEN conjunct2, THEN conjunct1] unfolding f by simp
  have "rebalance_attempt quiet 1 [] contention_example =
     rebalance_attempt quiet 0 (drop 2 (example_partitions 4)) ?s2"
    using th [THEN conjunct2, THEN conjunct2, THEN conjunct2] g d
    unfolding f by (simp add: Let_def power2_eq_square eval_nat_numeral)
  with f s a g d k show ?thesis by simp
qed


end
